theory Spec2Isabelle
  imports Main
begin

section \<open>The node editor of the JSON visualiser: values, text and edits\<close>

text \<open>
  The development embeds \<^verbatim>\<open>src/features/modals/NodeModal/index.tsx\<close>: the
  functions \<^verbatim>\<open>normalizeNodeData\<close>, \<^verbatim>\<open>applyEdit\<close> and the save handler
  \<^verbatim>\<open>handleSave\<close>, together with the parts of the JavaScript platform they call
  (\<^verbatim>\<open>Number\<close>, \<^verbatim>\<open>String.prototype.toLowerCase\<close>, \<^verbatim>\<open>JSON.parse\<close>,
  \<^verbatim>\<open>JSON.stringify\<close>, property reads, writes and deletions).

  Conventions of the model.
  \<^item> A JavaScript string is a \<open>string\<close>; a \<open>char\<close> stands for a code unit in the
    range U+0000 to U+00FF.
  \<^item> A finite number is kept exactly, as a decimal \<open>m * 10 ^ e\<close>; the rounding of
    IEEE doubles is not represented.
  \<^item> Property reads see own properties only; the members that the built-in
    prototypes would contribute (\<^verbatim>\<open>constructor\<close>, \<^verbatim>\<open>toString\<close>, ...) are not
    represented. Of these members, writes reach only the setter of
    \<^verbatim>\<open>__proto__\<close>, which is represented.
\<close>

subsection \<open>Numbers\<close>

datatype jsnum = NaN | PosInf | NegInf | Dec int int

definition digit_char :: "nat \<Rightarrow> char" where
  "digit_char d = char_of (48 + int d)"

fun nat_digits :: "nat \<Rightarrow> nat list" where
  "nat_digits n = (if n < 10 then [n] else nat_digits (n div 10) @ [n mod 10])"

declare nat_digits.simps [simp del]

definition nat_to_string :: "nat \<Rightarrow> string" where
  "nat_to_string n = map digit_char (nat_digits n)"

text \<open>The canonical form of a decimal: no trailing zero in the mantissa, and zero is \<open>Dec 0 0\<close>.\<close>

definition mk_dec :: "int \<Rightarrow> int \<Rightarrow> jsnum" where
  "mk_dec m e =
     (if m = 0 then Dec 0 0
      else (let z = length (takeWhile (\<lambda>d. d = 0) (rev (nat_digits (nat \<bar>m\<bar>))))
            in Dec (m div 10 ^ z) (e + int z)))"

definition normalise_num :: "jsnum \<Rightarrow> jsnum" where
  "normalise_num x = (case x of Dec m e \<Rightarrow> mk_dec m e | _ \<Rightarrow> x)"

text \<open>
  \<^verbatim>\<open>Number::toString\<close> (radix 10): with \<open>k\<close> significant digits \<open>s\<close> and
  \<open>s * 10 ^ (n - k)\<close> the value, the notation is chosen by \<open>n\<close>.
\<close>

definition unsigned_to_string :: "nat \<Rightarrow> int \<Rightarrow> string" where
  "unsigned_to_string s e =
     (let ds = nat_to_string s; k = int (length ds); n = k + e
      in if k \<le> n \<and> n \<le> 21 then ds @ replicate (nat (n - k)) (CHR ''0'')
         else if 0 < n \<and> n \<le> 21 then take (nat n) ds @ ''.'' @ drop (nat n) ds
         else if - 6 < n \<and> n \<le> 0 then ''0.'' @ replicate (nat (- n)) (CHR ''0'') @ ds
         else (let ex = (if 0 \<le> n - 1 then ''+'' else ''-'') @ nat_to_string (nat \<bar>n - 1\<bar>)
               in if k = 1 then ds @ ''e'' @ ex
                  else take 1 ds @ ''.'' @ drop 1 ds @ ''e'' @ ex))"

definition Number_toString :: "jsnum \<Rightarrow> string" where
  "Number_toString x =
     (case normalise_num x of
        NaN \<Rightarrow> ''NaN''
      | PosInf \<Rightarrow> ''Infinity''
      | NegInf \<Rightarrow> ''-Infinity''
      | Dec m e \<Rightarrow>
          (if m = 0 then ''0''
           else if m < 0 then ''-'' @ unsigned_to_string (nat (- m)) e
           else unsigned_to_string (nat m) e))"

subsection \<open>The conversion of a string to a number\<close>

definition is_digit :: "char \<Rightarrow> bool" where
  "is_digit c = (48 \<le> (of_char c :: int) \<and> (of_char c :: int) \<le> 57)"

definition digit_val :: "char \<Rightarrow> nat" where
  "digit_val c = nat ((of_char c :: int) - 48)"

definition hex_val :: "char \<Rightarrow> nat option" where
  "hex_val c =
     (let n = (of_char c :: int)
      in if 48 \<le> n \<and> n \<le> 57 then Some (nat (n - 48))
         else if 65 \<le> n \<and> n \<le> 70 then Some (nat (n - 55))
         else if 97 \<le> n \<and> n \<le> 102 then Some (nat (n - 87))
         else None)"

fun radix_val :: "nat \<Rightarrow> nat \<Rightarrow> string \<Rightarrow> nat option" where
  "radix_val b acc [] = Some acc"
| "radix_val b acc (c # cs) =
     (case hex_val c of
        None \<Rightarrow> None
      | Some d \<Rightarrow> if d < b then radix_val b (acc * b + d) cs else None)"

definition digits_val :: "string \<Rightarrow> nat" where
  "digits_val ds = foldl (\<lambda>acc c. acc * 10 + digit_val c) 0 ds"

text \<open>White space and line terminators of the language, within the modelled alphabet.\<close>

definition is_str_ws :: "char \<Rightarrow> bool" where
  "is_str_ws c = ((of_char c :: int) \<in> {9, 10, 11, 12, 13, 32, 160})"

definition trim :: "string \<Rightarrow> string" where
  "trim s = rev (dropWhile is_str_ws (rev (dropWhile is_str_ws s)))"

text \<open>\<^verbatim>\<open>StrUnsignedDecimalLiteral\<close> without \<^verbatim>\<open>Infinity\<close>: mantissa and exponent.\<close>

definition parse_exponent :: "string \<Rightarrow> int option" where
  "parse_exponent t =
     (let sg = (case t of c # _ \<Rightarrow> if c = CHR ''-'' then - 1 else 1 | [] \<Rightarrow> (1::int));
          ds = (case t of c # u \<Rightarrow> if c = CHR ''-'' \<or> c = CHR ''+'' then u else t | [] \<Rightarrow> t)
      in if ds \<noteq> [] \<and> list_all is_digit ds then Some (sg * int (digits_val ds)) else None)"

definition parse_unsigned_decimal :: "string \<Rightarrow> (nat \<times> int) option" where
  "parse_unsigned_decimal s =
     (let ip = takeWhile is_digit s; r1 = dropWhile is_digit s;
          fp = (case r1 of c # t \<Rightarrow> if c = CHR ''.'' then takeWhile is_digit t else [] | [] \<Rightarrow> []);
          r2 = (case r1 of c # t \<Rightarrow> if c = CHR ''.'' then dropWhile is_digit t else r1 | [] \<Rightarrow> [])
      in if ip = [] \<and> fp = [] then None
         else (case r2 of
                 [] \<Rightarrow> Some (digits_val (ip @ fp), - int (length fp))
               | c # t \<Rightarrow>
                   if c = CHR ''e'' \<or> c = CHR ''E''
                   then (case parse_exponent t of
                           None \<Rightarrow> None
                         | Some x \<Rightarrow> Some (digits_val (ip @ fp), x - int (length fp)))
                   else None))"

definition parse_signed_decimal :: "string \<Rightarrow> jsnum" where
  "parse_signed_decimal s =
     (let neg = (case s of c # _ \<Rightarrow> c = CHR ''-'' | [] \<Rightarrow> False);
          u = (case s of c # t \<Rightarrow> if c = CHR ''-'' \<or> c = CHR ''+'' then t else s | [] \<Rightarrow> s)
      in if u = ''Infinity'' then (if neg then NegInf else PosInf)
         else (case parse_unsigned_decimal u of
                 None \<Rightarrow> NaN
               | Some (m, e) \<Rightarrow> mk_dec (if neg then - int m else int m) e))"

definition parse_non_decimal :: "string \<Rightarrow> jsnum option" where
  "parse_non_decimal s =
     (case s of
        z # x # ds \<Rightarrow>
          if z = CHR ''0'' \<and> x \<in> set ''xXoObB''
          then (let b = (if x \<in> set ''xX'' then 16 else if x \<in> set ''oO'' then 8 else 2)
                in if ds = [] then Some NaN
                   else (case radix_val b 0 ds of
                           None \<Rightarrow> Some NaN
                         | Some n \<Rightarrow> Some (mk_dec (int n) 0)))
          else None
      | _ \<Rightarrow> None)"

text \<open>\<^verbatim>\<open>Number(s)\<close> for a string \<open>s\<close>: the empty or blank string is \<open>0\<close>.\<close>

definition Number :: "string \<Rightarrow> jsnum" where
  "Number s =
     (let t = trim s
      in if t = [] then Dec 0 0
         else (case parse_non_decimal t of
                 Some n \<Rightarrow> n
               | None \<Rightarrow> parse_signed_decimal t))"

definition Number_isNaN :: "jsnum \<Rightarrow> bool" where
  "Number_isNaN n = (n = NaN)"

subsection \<open>Strings\<close>

definition lower_char :: "char \<Rightarrow> char" where
  "lower_char c =
     (let n = (of_char c :: int)
      in if (65 \<le> n \<and> n \<le> 90) \<or> (192 \<le> n \<and> n \<le> 222 \<and> n \<noteq> 215)
         then char_of (n + 32) else c)"

definition toLowerCase :: "string \<Rightarrow> string" where
  "toLowerCase s = map lower_char s"

subsection \<open>Values\<close>

datatype json =
    JNull
  | JBool bool
  | JNum jsnum
  | JStr string
  | JArr "json list"
  | JObj "(string \<times> json) list"

datatype error = SyntaxError | TypeError | RangeError | InvalidPath

text \<open>
  \<open>SyntaxError\<close>, \<open>TypeError\<close> and \<open>RangeError\<close> are the platform's exceptions;
  \<open>InvalidPath\<close> is the \<^verbatim>\<open>Error("Invalid path")\<close> that \<^verbatim>\<open>applyEdit\<close> throws.
\<close>

subsection \<open>Serialisation: \<^verbatim>\<open>JSON.stringify\<close>\<close>

definition hex_char :: "int \<Rightarrow> char" where
  "hex_char d = (if d < 10 then char_of (48 + d) else char_of (87 + d))"

definition quote_char :: "char \<Rightarrow> string" where
  "quote_char c =
     (let n = (of_char c :: int)
      in if n = 8 then [CHR 0x5C, CHR ''b'']
         else if n = 9 then [CHR 0x5C, CHR ''t'']
         else if n = 10 then [CHR 0x5C, CHR ''n'']
         else if n = 12 then [CHR 0x5C, CHR ''f'']
         else if n = 13 then [CHR 0x5C, CHR ''r'']
         else if n = 34 then [CHR 0x5C, CHR 0x22]
         else if n = 92 then [CHR 0x5C, CHR 0x5C]
         else if n < 32 then [CHR 0x5C, CHR ''u'', CHR ''0'', CHR ''0'', hex_char (n div 16), hex_char (n mod 16)]
         else [c])"

definition QuoteJSONString :: "string \<Rightarrow> string" where
  "QuoteJSONString s = [CHR 0x22] @ concat (map quote_char s) @ [CHR 0x22]"

fun join :: "string \<Rightarrow> string list \<Rightarrow> string" where
  "join sep [] = []"
| "join sep [x] = x"
| "join sep (x # y # ys) = x @ sep @ join sep (y # ys)"

definition serialize_number :: "jsnum \<Rightarrow> string" where
  "serialize_number n =
     (case n of Dec m e \<Rightarrow> Number_toString (Dec m e) | _ \<Rightarrow> ''null'')"

text \<open>
  \<^verbatim>\<open>SerializeJSONProperty\<close> with the gap \<open>gap\<close> and the current indentation
  \<open>ind\<close>; the empty gap gives the compact form.
\<close>

fun serialize :: "string \<Rightarrow> string \<Rightarrow> json \<Rightarrow> string" where
  "serialize gap ind JNull = ''null''"
| "serialize gap ind (JBool b) = (if b then ''true'' else ''false'')"
| "serialize gap ind (JNum n) = serialize_number n"
| "serialize gap ind (JStr s) = QuoteJSONString s"
| "serialize gap ind (JArr xs) =
     (if xs = [] then ''[]''
      else if gap = [] then ''['' @ join '','' (map (serialize gap ind) xs) @ '']''
      else ''['' @ [CHR 0x0A] @ (ind @ gap)
           @ join ('','' @ [CHR 0x0A] @ (ind @ gap)) (map (serialize gap (ind @ gap)) xs)
           @ [CHR 0x0A] @ ind @ '']'')"
| "serialize gap ind (JObj kvs) =
     (if kvs = [] then ''{}''
      else if gap = []
      then ''{'' @ join '','' (map (\<lambda>kv. QuoteJSONString (fst kv) @ '':'' @ serialize gap ind (snd kv)) kvs) @ ''}''
      else ''{'' @ [CHR 0x0A] @ (ind @ gap)
           @ join ('','' @ [CHR 0x0A] @ (ind @ gap))
               (map (\<lambda>kv. QuoteJSONString (fst kv) @ '': '' @ serialize gap (ind @ gap) (snd kv)) kvs)
           @ [CHR 0x0A] @ ind @ ''}'')"

text \<open>\<^verbatim>\<open>JSON.stringify(v)\<close> and \<^verbatim>\<open>JSON.stringify(v, null, 2)\<close>.\<close>

definition JSON_stringify :: "json \<Rightarrow> string" where
  "JSON_stringify v = serialize [] [] v"

definition JSON_stringify2 :: "json \<Rightarrow> string" where
  "JSON_stringify2 v = serialize ''  '' [] v"

subsection \<open>Properties: keys, reads, writes, deletions\<close>

text \<open>
  Modelled from the spec: the type \<^verbatim>\<open>NodeData\<close> of \<^verbatim>\<open>types/graph\<close> is not
  among the sources. A path is an ordered sequence of segments, each a non-negative
  integer (an array index) or a string (an object key).
\<close>

datatype seg = Index nat | Key string

text \<open>The property key of a path segment (\<^verbatim>\<open>ToPropertyKey\<close>).\<close>

definition prop_key :: "seg \<Rightarrow> string" where
  "prop_key s = (case s of Index n \<Rightarrow> Number_toString (mk_dec (int n) 0) | Key k \<Rightarrow> k)"

text \<open>An array index: a canonical numeric string below \<open>2^32 - 1\<close>.\<close>

definition array_index :: "string \<Rightarrow> nat option" where
  "array_index k =
     (if k \<noteq> [] \<and> list_all is_digit k \<and> (k = ''0'' \<or> hd k \<noteq> CHR ''0'')
         \<and> int (digits_val k) < 4294967295
      then Some (digits_val k) else None)"

text \<open>
  An object is the list of its own properties in enumeration order: array indices in
  ascending order first, then the other keys in the order of their creation.
\<close>

fun insert_key :: "string \<Rightarrow> 'v \<Rightarrow> (string \<times> 'v) list \<Rightarrow> (string \<times> 'v) list" where
  "insert_key k v [] = [(k, v)]"
| "insert_key k v ((k', v') # r) =
     (case array_index k of
        None \<Rightarrow> (k', v') # insert_key k v r
      | Some i \<Rightarrow>
          (case array_index k' of
             None \<Rightarrow> (k, v) # (k', v') # r
           | Some j \<Rightarrow> if i < j then (k, v) # (k', v') # r else (k', v') # insert_key k v r))"

fun replace_key :: "string \<Rightarrow> 'v \<Rightarrow> (string \<times> 'v) list \<Rightarrow> (string \<times> 'v) list" where
  "replace_key k v [] = []"
| "replace_key k v ((k', v') # r) =
     (if k = k' then (k, v) # r else (k', v') # replace_key k v r)"

definition has_own :: "(string \<times> 'v) list \<Rightarrow> string \<Rightarrow> bool" where
  "has_own kvs k = (k \<in> set (map fst kvs))"

text \<open>\<^verbatim>\<open>CreateDataProperty\<close>, as \<^verbatim>\<open>JSON.parse\<close> uses it.\<close>

definition define_prop :: "string \<Rightarrow> json \<Rightarrow> (string \<times> json) list \<Rightarrow> (string \<times> json) list" where
  "define_prop k v kvs = (if has_own kvs k then replace_key k v kvs else insert_key k v kvs)"

fun js_ToString :: "json \<Rightarrow> string" where
  "js_ToString JNull = ''null''"
| "js_ToString (JBool b) = (if b then ''true'' else ''false'')"
| "js_ToString (JNum n) = Number_toString n"
| "js_ToString (JStr s) = s"
| "js_ToString (JObj kvs) = ''[object Object]''"
| "js_ToString (JArr xs) =
     join '','' (map (\<lambda>x. case x of JNull \<Rightarrow> [] | _ \<Rightarrow> js_ToString x) xs)"

definition js_ToNumber :: "json \<Rightarrow> jsnum" where
  "js_ToNumber v =
     (case v of
        JNull \<Rightarrow> Dec 0 0
      | JBool b \<Rightarrow> (if b then Dec 1 0 else Dec 0 0)
      | JNum n \<Rightarrow> n
      | JStr s \<Rightarrow> Number s
      | _ \<Rightarrow> Number (js_ToString v))"

text \<open>The new length of \<^verbatim>\<open>ArraySetLength\<close>: an integer from \<open>0\<close> to \<open>2^32 - 1\<close>.\<close>

definition array_length_of :: "json \<Rightarrow> nat option" where
  "array_length_of v =
     (case normalise_num (js_ToNumber v) of
        Dec m e \<Rightarrow>
          if 0 \<le> m \<and> 0 \<le> e \<and> m * 10 ^ nat e \<le> 4294967295
          then Some (nat (m * 10 ^ nat e)) else None
      | _ \<Rightarrow> None)"

text \<open>The own property \<open>k\<close> of a value, \<open>None\<close> for \<^verbatim>\<open>undefined\<close>.\<close>

definition get_own :: "json \<Rightarrow> string \<Rightarrow> json option" where
  "get_own v k =
     (case v of
        JObj kvs \<Rightarrow> map_of kvs k
      | JArr xs \<Rightarrow>
          (case array_index k of
             Some i \<Rightarrow> if i < length xs then Some (xs ! i) else None
           | None \<Rightarrow> if k = ''length'' then Some (JNum (mk_dec (int (length xs)) 0)) else None)
      | JStr s \<Rightarrow>
          (case array_index k of
             Some i \<Rightarrow> if i < length s then Some (JStr [s ! i]) else None
           | None \<Rightarrow> if k = ''length'' then Some (JNum (mk_dec (int (length s)) 0)) else None)
      | _ \<Rightarrow> None)"

text \<open>
  The read \<^verbatim>\<open>parent[seg]\<close>: a \<open>TypeError\<close> on \<^verbatim>\<open>undefined\<close> and on
  \<^verbatim>\<open>null\<close>.
\<close>

definition js_get :: "json option \<Rightarrow> seg \<Rightarrow> error + json option" where
  "js_get parent s =
     (case parent of
        None \<Rightarrow> Inl TypeError
      | Some JNull \<Rightarrow> Inl TypeError
      | Some v \<Rightarrow> Inr (get_own v (prop_key s)))"

text \<open>
  The write \<^verbatim>\<open>o[k] = v\<close> in strict code on a value of the document, as the value
  of \<open>o\<close> afterwards. Holes of an array are written \<open>JNull\<close>, which is how they
  serialise; a property of an array that is neither an index nor its length does not
  serialise and is dropped.

  A write of \<^verbatim>\<open>__proto__\<close> on an object without an own property of that name
  reaches the setter that \<^verbatim>\<open>Object.prototype\<close> provides: no own property is
  created. The prototype that the setter may change is not represented: nothing is
  read through it before the document is serialised, and a pass that writes each key
  of an object once reaches the setter at most once. On a boolean, a number or a
  string the setter returns without effect, where the write of any other key throws;
  on \<^verbatim>\<open>null\<close> every write throws.
\<close>

definition obj_assign :: "string \<Rightarrow> json \<Rightarrow> (string \<times> json) list \<Rightarrow> (string \<times> json) list" where
  "obj_assign k v kvs =
     (if has_own kvs k then replace_key k v kvs
      else if k = ''__proto__'' then kvs
      else insert_key k v kvs)"

text \<open>
  An object that the source creates with \<^verbatim>\<open>{}\<close> and fills by writes: its own
  properties and what its prototype is. The prototype starts as
  \<^verbatim>\<open>Object.prototype\<close>; the setter of \<^verbatim>\<open>__proto__\<close> makes it \<^verbatim>\<open>null\<close> or
  the object written, of which it matters only whether it has an own property
  \<^verbatim>\<open>__proto__\<close>, and ignores any other value.
\<close>

datatype value_kind = NullValue | ObjectValue bool | OtherValue

datatype proto = ObjectPrototype | NullPrototype | ValuePrototype bool

record 'v plain_object =
  po_own :: "(string \<times> 'v) list"
  po_proto :: proto

definition new_object :: "'v plain_object" where
  "new_object = \<lparr>po_own = [], po_proto = ObjectPrototype\<rparr>"

definition json_kind :: "json \<Rightarrow> value_kind" where
  "json_kind v =
     (case v of
        JNull \<Rightarrow> NullValue
      | JObj kvs \<Rightarrow> ObjectValue (has_own kvs ''__proto__'')
      | JArr xs \<Rightarrow> ObjectValue False
      | _ \<Rightarrow> OtherValue)"

text \<open>Whether a write of \<^verbatim>\<open>__proto__\<close> finds the setter along the prototype chain.\<close>

definition setter_reached :: "proto \<Rightarrow> bool" where
  "setter_reached p =
     (case p of
        ObjectPrototype \<Rightarrow> True
      | NullPrototype \<Rightarrow> False
      | ValuePrototype own \<Rightarrow> \<not> own)"

definition proto_setter :: "value_kind \<Rightarrow> proto \<Rightarrow> proto" where
  "proto_setter kind p =
     (case kind of
        NullValue \<Rightarrow> NullPrototype
      | ObjectValue own \<Rightarrow> ValuePrototype own
      | OtherValue \<Rightarrow> p)"

text \<open>The write \<^verbatim>\<open>obj[k] = v\<close> on such an object.\<close>

definition plain_assign ::
  "('v \<Rightarrow> value_kind) \<Rightarrow> string \<Rightarrow> 'v \<Rightarrow> 'v plain_object \<Rightarrow> 'v plain_object" where
  "plain_assign kind k v obj =
     (if has_own (po_own obj) k then obj\<lparr>po_own := replace_key k v (po_own obj)\<rparr>
      else if k = ''__proto__'' \<and> setter_reached (po_proto obj)
      then obj\<lparr>po_proto := proto_setter (kind v) (po_proto obj)\<rparr>
      else obj\<lparr>po_own := insert_key k v (po_own obj)\<rparr>)"

definition js_put :: "json \<Rightarrow> string \<Rightarrow> json \<Rightarrow> error + json" where
  "js_put obj k v =
     (case obj of
        JObj kvs \<Rightarrow> Inr (JObj (obj_assign k v kvs))
      | JArr xs \<Rightarrow>
          (case array_index k of
             Some i \<Rightarrow>
               if i < length xs then Inr (JArr (xs[i := v]))
               else Inr (JArr (xs @ replicate (i - length xs) JNull @ [v]))
           | None \<Rightarrow>
               if k = ''length''
               then (case array_length_of v of
                       None \<Rightarrow> Inl RangeError
                     | Some n \<Rightarrow> Inr (JArr (take n xs @ replicate (n - length xs) JNull)))
               else Inr (JArr xs))
      | JNull \<Rightarrow> Inl TypeError
      | _ \<Rightarrow> if k = ''__proto__'' then Inr obj else Inl TypeError)"

text \<open>\<^verbatim>\<open>delete o[k]\<close> for an own enumerable key \<open>k\<close> of an object or an array.\<close>

definition js_delete :: "json \<Rightarrow> string \<Rightarrow> json" where
  "js_delete obj k =
     (case obj of
        JObj kvs \<Rightarrow> JObj (filter (\<lambda>kv. fst kv \<noteq> k) kvs)
      | JArr xs \<Rightarrow>
          (case array_index k of
             Some i \<Rightarrow> if i < length xs then JArr (xs[i := JNull]) else JArr xs
           | None \<Rightarrow> JArr xs)
      | _ \<Rightarrow> obj)"

definition Object_keys :: "json \<Rightarrow> string list" where
  "Object_keys obj =
     (case obj of
        JObj kvs \<Rightarrow> map fst kvs
      | JArr xs \<Rightarrow> map (\<lambda>i. nat_to_string i) [0 ..< length xs]
      | JStr s \<Rightarrow> map (\<lambda>i. nat_to_string i) [0 ..< length s]
      | _ \<Rightarrow> [])"

subsection \<open>Parsing: \<^verbatim>\<open>JSON.parse\<close>\<close>

datatype token = TLBrace | TRBrace | TLBrack | TRBrack | TComma | TColon | TLit json

definition is_json_ws :: "char \<Rightarrow> bool" where
  "is_json_ws c = ((of_char c :: int) \<in> {9, 10, 13, 32})"

definition unescape :: "char \<Rightarrow> char option" where
  "unescape e =
     (if e = CHR 0x22 \<or> e = CHR 0x5C \<or> e = CHR ''/'' then Some e
      else if e = CHR ''b'' then Some (CHR 0x08)
      else if e = CHR ''f'' then Some (CHR 0x0C)
      else if e = CHR ''n'' then Some (CHR 0x0A)
      else if e = CHR ''r'' then Some (CHR 0x0D)
      else if e = CHR ''t'' then Some (CHR 0x09)
      else None)"

text \<open>
  The body of a string literal, after the opening quote: the decoded string and the
  text after the closing quote. An escape \<^verbatim>\<open>\uXXXX\<close> above \<^verbatim>\<open>\u00FF\<close> names a code
  unit outside the modelled alphabet and is not accepted.
\<close>

definition read_escape :: "string \<Rightarrow> (char \<times> string) option" where
  "read_escape cs =
     (case cs of
        [] \<Rightarrow> None
      | e # r \<Rightarrow>
          if e = CHR ''u''
          then (if length r < 4 then None
                else (case radix_val 16 0 (take 4 r) of
                        None \<Rightarrow> None
                      | Some n \<Rightarrow> if n < 256 then Some (char_of n, drop 4 r) else None))
          else (case unescape e of None \<Rightarrow> None | Some d \<Rightarrow> Some (d, r)))"

lemma read_escape_shorter:
  "read_escape cs = Some (d, r) \<Longrightarrow> length r < length cs"
  unfolding read_escape_def
  by (cases cs) (auto split: if_splits option.splits)

function lex_string :: "string \<Rightarrow> string \<Rightarrow> (string \<times> string) option" where
  "lex_string acc [] = None"
| "lex_string acc (c # cs) =
     (if c = CHR 0x22 then Some (acc, cs)
      else if c = CHR 0x5C
      then (case read_escape cs of
              None \<Rightarrow> None
            | Some (d, r) \<Rightarrow> lex_string (acc @ [d]) r)
      else if (of_char c :: int) < 32 then None
      else lex_string (acc @ [c]) cs)"
  by pat_completeness auto
termination
proof (relation "measure (\<lambda>(acc, cs). length cs)", goal_cases)
  case 1
  show ?case by simp
next
  case (2 acc c cs x2 d r)
  then have "read_escape cs = Some (d, r)" by simp
  from read_escape_shorter[OF this] show ?case by simp
next
  case (3 acc c cs)
  show ?case by simp
qed

definition is_num_char :: "char \<Rightarrow> bool" where
  "is_num_char c = (is_digit c \<or> c \<in> set ''+-.eE'')"

text \<open>The number grammar of JSON, on a whole word.\<close>

definition json_number :: "string \<Rightarrow> jsnum option" where
  "json_number s =
     (let neg = (case s of c # _ \<Rightarrow> c = CHR ''-'' | [] \<Rightarrow> False);
          u = (if neg then tl s else s);
          ip = takeWhile is_digit u; r1 = dropWhile is_digit u;
          dot = (case r1 of c # _ \<Rightarrow> c = CHR ''.'' | [] \<Rightarrow> False);
          fp = (if dot then takeWhile is_digit (tl r1) else []);
          r2 = (if dot then dropWhile is_digit (tl r1) else r1);
          m = (if neg then - int (digits_val (ip @ fp)) else int (digits_val (ip @ fp)))
      in if ip = [] \<or> (1 < length ip \<and> hd ip = CHR ''0'') \<or> (dot \<and> fp = []) then None
         else (case r2 of
                 [] \<Rightarrow> Some (mk_dec m (- int (length fp)))
               | c # t \<Rightarrow>
                   if c = CHR ''e'' \<or> c = CHR ''E''
                   then (case parse_exponent t of
                           None \<Rightarrow> None
                         | Some x \<Rightarrow> Some (mk_dec m (x - int (length fp))))
                   else None))"

lemma lex_string_shorter:
  "lex_string acc cs = Some (s, r) \<Longrightarrow> length r < length cs"
proof (induction acc cs rule: lex_string.induct)
  case (1 acc)
  then show ?case by simp
next
  case (2 acc c cs)
  show ?case
  proof (cases "c = CHR 0x22")
    case True
    with 2(3) show ?thesis by simp
  next
    case notq: False
    show ?thesis
    proof (cases "c = CHR 0x5C")
      case True
      with notq 2(3) obtain d r' where e: "read_escape cs = Some (d, r')"
        and l: "lex_string (acc @ [d]) r' = Some (s, r)"
        by (auto split: option.splits)
      from 2(1)[OF notq True e refl l] read_escape_shorter[OF e]
      show ?thesis by simp
    next
      case False
      with notq 2(3) have ok: "\<not> (of_char c :: int) < 32"
        and l: "lex_string (acc @ [c]) cs = Some (s, r)"
        by (auto split: if_splits)
      from 2(2)[OF notq False ok l] show ?thesis by simp
    qed
  qed
qed

function lex :: "string \<Rightarrow> token list option" where
  "lex [] = Some []"
| "lex (c # cs) =
     (if is_json_ws c then lex cs
      else if c = CHR ''{'' then map_option (Cons TLBrace) (lex cs)
      else if c = CHR ''}'' then map_option (Cons TRBrace) (lex cs)
      else if c = CHR ''['' then map_option (Cons TLBrack) (lex cs)
      else if c = CHR '']'' then map_option (Cons TRBrack) (lex cs)
      else if c = CHR '','' then map_option (Cons TComma) (lex cs)
      else if c = CHR '':'' then map_option (Cons TColon) (lex cs)
      else if c = CHR 0x22
      then (case lex_string [] cs of
              None \<Rightarrow> None
            | Some (s, r) \<Rightarrow> map_option (Cons (TLit (JStr s))) (lex r))
      else if c = CHR ''-'' \<or> is_digit c
      then (case json_number (c # takeWhile is_num_char cs) of
              None \<Rightarrow> None
            | Some n \<Rightarrow> map_option (Cons (TLit (JNum n))) (lex (dropWhile is_num_char cs)))
      else if take 4 (c # cs) = ''true'' then map_option (Cons (TLit (JBool True))) (lex (drop 3 cs))
      else if take 5 (c # cs) = ''false'' then map_option (Cons (TLit (JBool False))) (lex (drop 4 cs))
      else if take 4 (c # cs) = ''null'' then map_option (Cons (TLit JNull)) (lex (drop 3 cs))
      else None)"
  by pat_completeness auto
termination
proof (relation "measure length", goal_cases)
  case (9 c cs x2 s r)
  then have "lex_string [] cs = Some (s, r)" by simp
  from lex_string_shorter[OF this] show ?case by simp
next
  case (10 c cs n)
  have "length (dropWhile is_num_char cs) \<le> length cs" by (rule length_dropWhile_le)
  then show ?case by simp
qed simp_all

declare lex_string.simps [simp del]
declare lex.simps [simp del]

text \<open>
  The grammar, as a machine with a stack of the open arrays and objects. A member of
  an object is defined as \<^verbatim>\<open>JSON.parse\<close> does, a later duplicate replacing the
  earlier value.
\<close>

datatype frame =
    InArr "json list"
  | InObj "(string \<times> json) list"
  | InMember "(string \<times> json) list" string

datatype expect =
    XValue | XValueOrEnd | XKey | XKeyOrEnd | XColon string | XCommaOrEnd | XDone json

fun deliver :: "json \<Rightarrow> frame list \<Rightarrow> (expect \<times> frame list) option" where
  "deliver v [] = Some (XDone v, [])"
| "deliver v (InArr xs # st) = Some (XCommaOrEnd, InArr (xs @ [v]) # st)"
| "deliver v (InMember kvs k # st) = Some (XCommaOrEnd, InObj (define_prop k v kvs) # st)"
| "deliver v (InObj kvs # st) = None"

definition close_arr :: "frame list \<Rightarrow> (expect \<times> frame list) option" where
  "close_arr st = (case st of InArr xs # st' \<Rightarrow> deliver (JArr xs) st' | _ \<Rightarrow> None)"

definition close_obj :: "frame list \<Rightarrow> (expect \<times> frame list) option" where
  "close_obj st = (case st of InObj kvs # st' \<Rightarrow> deliver (JObj kvs) st' | _ \<Rightarrow> None)"

definition value_start :: "frame list \<Rightarrow> token \<Rightarrow> (expect \<times> frame list) option" where
  "value_start st t =
     (case t of
        TLit v \<Rightarrow> deliver v st
      | TLBrack \<Rightarrow> Some (XValueOrEnd, InArr [] # st)
      | TLBrace \<Rightarrow> Some (XKeyOrEnd, InObj [] # st)
      | _ \<Rightarrow> None)"

definition key_start :: "frame list \<Rightarrow> token \<Rightarrow> (expect \<times> frame list) option" where
  "key_start st t = (case t of TLit (JStr k) \<Rightarrow> Some (XColon k, st) | _ \<Rightarrow> None)"

definition parse_step :: "expect \<Rightarrow> frame list \<Rightarrow> token \<Rightarrow> (expect \<times> frame list) option" where
  "parse_step x st t =
     (case x of
        XValue \<Rightarrow> value_start st t
      | XValueOrEnd \<Rightarrow> (case t of TRBrack \<Rightarrow> close_arr st | _ \<Rightarrow> value_start st t)
      | XKey \<Rightarrow> key_start st t
      | XKeyOrEnd \<Rightarrow> (case t of TRBrace \<Rightarrow> close_obj st | _ \<Rightarrow> key_start st t)
      | XColon k \<Rightarrow>
          (case t of
             TColon \<Rightarrow> (case st of InObj kvs # st' \<Rightarrow> Some (XValue, InMember kvs k # st') | _ \<Rightarrow> None)
           | _ \<Rightarrow> None)
      | XCommaOrEnd \<Rightarrow>
          (case t of
             TComma \<Rightarrow>
               (case st of
                  InArr xs # st' \<Rightarrow> Some (XValue, st)
                | InObj kvs # st' \<Rightarrow> Some (XKey, st)
                | _ \<Rightarrow> None)
           | TRBrack \<Rightarrow> close_arr st
           | TRBrace \<Rightarrow> close_obj st
           | _ \<Rightarrow> None)
      | XDone v \<Rightarrow> None)"

fun parse_tokens :: "expect \<Rightarrow> frame list \<Rightarrow> token list \<Rightarrow> json option" where
  "parse_tokens x st [] = (case x of XDone v \<Rightarrow> Some v | _ \<Rightarrow> None)"
| "parse_tokens x st (t # ts) =
     (case parse_step x st t of
        None \<Rightarrow> None
      | Some (x', st') \<Rightarrow> parse_tokens x' st' ts)"

definition JSON_parse :: "string \<Rightarrow> error + json" where
  "JSON_parse text =
     (case lex text of
        None \<Rightarrow> Inl SyntaxError
      | Some ts \<Rightarrow>
          (case parse_tokens XValue [] ts of
             None \<Rightarrow> Inl SyntaxError
           | Some v \<Rightarrow> Inr v))"

subsection \<open>The document as a store\<close>

text \<open>
  A parsed document is a fresh tree: no object or array in it is shared. A reference
  into it is therefore identified with the access path from the root, and the tree is
  the store that the writes of the source change in place. A variable that walks into
  the document (\<^verbatim>\<open>parent\<close>, \<^verbatim>\<open>target\<close>) holds \<^verbatim>\<open>undefined\<close>
  (\<open>None\<close>) or the value found there.
\<close>

text \<open>The loop \<^verbatim>\<open>for (const seg of path) cur = cur[seg]\<close>.\<close>

fun walk :: "json option \<Rightarrow> seg list \<Rightarrow> error + json option" where
  "walk cur [] = Inr cur"
| "walk cur (s # ss) =
     (case js_get cur s of
        Inl e \<Rightarrow> Inl e
      | Inr nxt \<Rightarrow> walk nxt ss)"

text \<open>The tree after its child \<open>k\<close>, an object or an array, has become \<open>c\<close>.\<close>

definition set_child :: "json \<Rightarrow> string \<Rightarrow> json \<Rightarrow> json" where
  "set_child t k c =
     (case t of
        JObj kvs \<Rightarrow> JObj (replace_key k c kvs)
      | JArr xs \<Rightarrow> (case array_index k of Some i \<Rightarrow> JArr (xs[i := c]) | None \<Rightarrow> t)
      | _ \<Rightarrow> t)"

text \<open>
  The store after the operation \<open>f\<close> has run on the value that the walk along the
  path reaches. What a read copies out of a string or computes (a length) is not part
  of the store, and a location that does not exist leaves the store as it is.
\<close>

fun update_at :: "(json \<Rightarrow> error + json) \<Rightarrow> json \<Rightarrow> seg list \<Rightarrow> error + json" where
  "update_at f t [] = f t"
| "update_at f t (s # ss) =
     (case get_own t (prop_key s) of
        None \<Rightarrow> Inr t
      | Some c \<Rightarrow>
          (case update_at f c ss of
             Inl e \<Rightarrow> Inl e
           | Inr c' \<Rightarrow> Inr (set_child t (prop_key s) c')))"

subsection \<open>\<^verbatim>\<open>normalizeNodeData\<close>\<close>

text \<open>
  Modelled from the spec: the type of a row of \<^verbatim>\<open>NodeData["text"]\<close> is not among
  the sources. A row has a key (a string, or \<^verbatim>\<open>null\<close> for a node that is a bare
  value), the runtime value of a primitive and a type tag. The specification provides
  for a value whose serialisation fails and that has a plain text form: among the
  primitives of the language that is the big integer, on which
  \<^verbatim>\<open>JSON.stringify\<close> throws. A value is therefore a value of JSON or a big integer.
\<close>

datatype rowval = RJson json | RBigInt int

record row =
  r_key :: "string option"
  r_value :: rowval
  r_type :: string

text \<open>The test \<^verbatim>\<open>!key\<close> on a key that is a string or \<^verbatim>\<open>null\<close>.\<close>

definition falsy_key :: "string option \<Rightarrow> bool" where
  "falsy_key k = (k = None \<or> k = Some [])"

definition rowval_json :: "rowval \<Rightarrow> json option" where
  "rowval_json v = (case v of RJson j \<Rightarrow> Some j | RBigInt n \<Rightarrow> None)"

definition rowval_kind :: "rowval \<Rightarrow> value_kind" where
  "rowval_kind v = (case v of RJson j \<Rightarrow> json_kind j | RBigInt n \<Rightarrow> OtherValue)"

text \<open>\<^verbatim>\<open>JSON.stringify(v)\<close> on the value of a row: a \<open>TypeError\<close> on a big integer.\<close>

definition try_stringify :: "rowval \<Rightarrow> error + string" where
  "try_stringify v =
     (case v of
        RJson j \<Rightarrow> Inr (JSON_stringify j)
      | RBigInt n \<Rightarrow> Inl TypeError)"

text \<open>
  \<^verbatim>\<open>JSON.stringify(obj, null, 2)\<close> on the own properties of the object built from
  the rows: a \<open>TypeError\<close> when one of them holds a big integer.
\<close>

definition try_stringify2 :: "(string \<times> rowval) list \<Rightarrow> error + string" where
  "try_stringify2 own =
     (case those (map (\<lambda>kv. map_option (Pair (fst kv)) (rowval_json (snd kv))) own) of
        None \<Rightarrow> Inl TypeError
      | Some kvs \<Rightarrow> Inr (JSON_stringify2 (JObj kvs)))"

text \<open>The template literal of the catch clause: the plain text of a value.\<close>

definition BigInt_toString :: "int \<Rightarrow> string" where
  "BigInt_toString n =
     (if n < 0 then ''-'' @ nat_to_string (nat (- n)) else nat_to_string (nat n))"

definition template_text :: "rowval \<Rightarrow> string" where
  "template_text v = (case v of RJson j \<Rightarrow> js_ToString j | RBigInt n \<Rightarrow> BigInt_toString n)"

text \<open>The callback of \<^verbatim>\<open>nodeRows.forEach\<close>, on the object built so far.\<close>

definition row_step :: "rowval plain_object \<Rightarrow> row \<Rightarrow> rowval plain_object" where
  "row_step obj r =
     (if r_type r \<noteq> ''array'' \<and> r_type r \<noteq> ''object''
      then (if falsy_key (r_key r) then obj
            else plain_assign rowval_kind (the (r_key r)) (r_value r) obj)
      else obj)"

definition rows_object :: "row list \<Rightarrow> rowval plain_object" where
  "rows_object nodeRows = foldl row_step new_object nodeRows"

text \<open>
  The single value is serialised inside \<^verbatim>\<open>try\<close>, with the template literal in
  the catch clause; the object of the last line is serialised outside it.
\<close>

definition normalizeNodeData :: "row list \<Rightarrow> error + string" where
  "normalizeNodeData nodeRows =
     (if nodeRows = [] then Inr ''{}''
      else if length nodeRows = 1 \<and> falsy_key (r_key (hd nodeRows))
      then (let v = r_value (hd nodeRows)
            in case try_stringify v of
                 Inr text \<Rightarrow> Inr text
               | Inl e \<Rightarrow> Inr (template_text v))
      else try_stringify2 (po_own (rows_object nodeRows)))"

subsection \<open>\<^verbatim>\<open>applyEdit\<close>\<close>

definition applyEdit :: "string \<Rightarrow> seg list option \<Rightarrow> json \<Rightarrow> error + string" where
  "applyEdit rawJson path newValue =
     (case JSON_parse rawJson of
        Inl e \<Rightarrow> Inl e
      | Inr root \<Rightarrow>
          if path = None \<or> path = Some [] then Inr (JSON_stringify2 newValue)
          else (let parentPath = butlast (the path); lst = last (the path)
                in case walk (Some root) parentPath of
                     Inl e \<Rightarrow> Inl e
                   | Inr None \<Rightarrow> Inl InvalidPath
                   | Inr (Some parent) \<Rightarrow>
                       (case update_at (\<lambda>p. js_put p (prop_key lst) newValue) root parentPath of
                          Inl e \<Rightarrow> Inl e
                        | Inr root' \<Rightarrow> Inr (JSON_stringify2 root'))))"

subsection \<open>The coercion of an editable field\<close>

record field =
  f_key :: "string option"
  f_value :: string
  f_type :: string

text \<open>Lines 116 to 125 of the source: the value stored for a field.\<close>

definition coerce :: "field \<Rightarrow> json" where
  "coerce f =
     (if f_type f = ''number''
      then (let n = Number (f_value f)
            in if Number_isNaN n then JStr (f_value f) else JNum n)
      else if f_type f = ''boolean''
      then (let low = toLowerCase (f_value f)
            in if low = ''true'' then JBool True
               else if low = ''false'' then JBool False
               else JStr (f_value f))
      else if f_type f = ''null'' then JNull
      else JStr (f_value f))"

text \<open>The object \<^verbatim>\<open>updatedObj\<close> of \<^verbatim>\<open>handleSave\<close>, from the state \<^verbatim>\<open>fields\<close> (here \<open>flds\<close>).\<close>

definition field_step :: "json plain_object \<Rightarrow> field \<Rightarrow> json plain_object" where
  "field_step obj f =
     (if falsy_key (f_key f) then obj
      else plain_assign json_kind (the (f_key f)) (coerce f) obj)"

text \<open>The own properties of \<^verbatim>\<open>updatedObj\<close> after the loop over the fields.\<close>

definition updatedObj :: "field list \<Rightarrow> (string \<times> json) list" where
  "updatedObj flds = po_own (foldl field_step new_object flds)"

subsection \<open>The save of a node with keyed rows\<close>

text \<open>The test \<^verbatim>\<open>val === null || typeof val !== "object"\<close>, on a value or \<^verbatim>\<open>undefined\<close>.\<close>

definition not_object :: "json option \<Rightarrow> bool" where
  "not_object v = (case v of Some (JObj kvs) \<Rightarrow> False | Some (JArr xs) \<Rightarrow> False | _ \<Rightarrow> True)"

definition keysToDelete :: "json \<Rightarrow> field list \<Rightarrow> string list" where
  "keysToDelete target flds =
     filter (\<lambda>k. not_object (get_own target k) \<and> \<not> list_ex (\<lambda>f. f_key f = Some k) flds)
       (Object_keys target)"

fun put_all :: "json \<Rightarrow> (string \<times> json) list \<Rightarrow> error + json" where
  "put_all target [] = Inr target"
| "put_all target ((k, v) # r) =
     (case js_put target k v of
        Inl e \<Rightarrow> Inl e
      | Inr target' \<Rightarrow> put_all target' r)"

text \<open>Lines 144 to 154: the deletions, then the writes, on the object \<^verbatim>\<open>target\<close>.\<close>

definition merge_target :: "field list \<Rightarrow> json \<Rightarrow> error + json" where
  "merge_target flds target =
     put_all (foldl js_delete target (keysToDelete target flds)) (updatedObj flds)"

text \<open>The segments that the loop over \<^verbatim>\<open>nodeData.path\<close> visits: none for an absent path.\<close>

definition segments :: "seg list option \<Rightarrow> seg list" where
  "segments path = (case path of None \<Rightarrow> [] | Some p \<Rightarrow> p)"

text \<open>The branch \<^verbatim>\<open>hasKeys\<close> of \<^verbatim>\<open>handleSave\<close>, from the document text to the new text.\<close>

definition syncFields :: "string \<Rightarrow> seg list option \<Rightarrow> field list \<Rightarrow> error + string" where
  "syncFields currentJson path flds =
     (case JSON_parse currentJson of
        Inl e \<Rightarrow> Inl e
      | Inr root \<Rightarrow>
          (case walk (Some root) (segments path) of
             Inl e \<Rightarrow> Inl e
           | Inr target \<Rightarrow>
               if not_object target
               then applyEdit currentJson path (JObj (updatedObj flds))
               else (case update_at (merge_target flds) root (segments path) of
                       Inl e \<Rightarrow> Inl e
                     | Inr root' \<Rightarrow> Inr (JSON_stringify2 root'))))"

text \<open>
  Modelled from the spec: the selected node, with its rows and its path, which may
  be absent.
\<close>

record node_data =
  nd_text :: "row list"
  nd_path :: "seg list option"

text \<open>
  \<^verbatim>\<open>handleSave\<close>: nothing without a selected node; otherwise the new contents, or
  the error whose message is shown.
\<close>

definition handleSave ::
  "node_data option \<Rightarrow> field list \<Rightarrow> string \<Rightarrow> string \<Rightarrow> (error + string) option" where
  "handleSave nodeData flds editText currentJson =
     (case nodeData of
        None \<Rightarrow> None
      | Some nd \<Rightarrow>
          Some (if list_ex (\<lambda>r. r_key r \<noteq> None) (nd_text nd)
                then syncFields currentJson (nd_path nd) flds
                else (let parsedValue =
                            (case JSON_parse editText of Inl e \<Rightarrow> JStr editText | Inr v \<Rightarrow> v)
                      in applyEdit currentJson (nd_path nd) parsedValue)))"

subsection \<open>Notions of the specification\<close>



text \<open>A key that is the empty string, read as an absent key.\<close>

definition absent_if_empty :: "string option \<Rightarrow> string option" where
  "absent_if_empty k = (if k = Some [] then None else k)"

text \<open>What a returned document parses to.\<close>

definition parsed_result :: "error + string \<Rightarrow> error + json" where
  "parsed_result r = (case r of Inl e \<Rightarrow> Inl e | Inr text \<Rightarrow> JSON_parse text)"

text \<open>Objects and arrays: the values that are held by reference.\<close>

definition is_container :: "json \<Rightarrow> bool" where
  "is_container v = (case v of JObj kvs \<Rightarrow> True | JArr xs \<Rightarrow> True | _ \<Rightarrow> False)"

text \<open>
  The member of an object under a key, the element of an array at an index: the
  locations a path addresses.
\<close>

definition child :: "json \<Rightarrow> string \<Rightarrow> json option" where
  "child t k =
     (case t of
        JObj kvs \<Rightarrow> map_of kvs k
      | JArr xs \<Rightarrow>
          (case array_index k of
             Some i \<Rightarrow> if i < length xs then Some (xs ! i) else None
           | None \<Rightarrow> None)
      | _ \<Rightarrow> None)"

text \<open>A path resolves when each of its segments addresses a location.\<close>

fun resolves :: "json \<Rightarrow> seg list \<Rightarrow> bool" where
  "resolves t [] = True"
| "resolves t (s # ss) = (case child t (prop_key s) of None \<Rightarrow> False | Some c \<Rightarrow> resolves c ss)"

text \<open>Two lists of keys diverge when neither is a prefix of the other.\<close>

fun diverge :: "string list \<Rightarrow> string list \<Rightarrow> bool" where
  "diverge (a # as) (b # bs) = (if a = b then diverge as bs else True)"
| "diverge as bs = False"

text \<open>
  The object that the deletions and the writes of the save leave in place of the
  object \<open>kvs\<close>.
\<close>

definition merged_object :: "(string \<times> json) list \<Rightarrow> field list \<Rightarrow> (string \<times> json) list" where
  "merged_object kvs flds =
     foldl (\<lambda>obj kv. obj_assign (fst kv) (snd kv) obj)
       (filter (\<lambda>kv. fst kv \<notin> set (keysToDelete (JObj kvs) flds)) kvs)
       (updatedObj flds)"



section \<open>Properties\<close>

subsection \<open>Association lists\<close>

lemma has_own_map_of: "has_own kvs k \<longleftrightarrow> map_of kvs k \<noteq> None"
  by (simp add: has_own_def map_of_eq_None_iff)

lemma map_of_replace_key:
  "map_of (replace_key k v kvs) k' = (if k' = k \<and> has_own kvs k then Some v else map_of kvs k')"
  by (induction kvs) (force simp: has_own_def)+

lemma map_of_insert_key:
  "\<not> has_own kvs k \<Longrightarrow> map_of (insert_key k v kvs) k' = (if k' = k then Some v else map_of kvs k')"
  by (induction kvs) (auto simp: has_own_def split: option.splits)

lemma map_of_obj_assign:
  "k \<noteq> ''__proto__'' \<or> has_own kvs k \<Longrightarrow>
   map_of (obj_assign k v kvs) k' = (if k' = k then Some v else map_of kvs k')"
  by (auto simp: obj_assign_def map_of_replace_key map_of_insert_key)

lemma map_of_obj_assign_other:
  "k' \<noteq> k \<Longrightarrow> map_of (obj_assign k v kvs) k' = map_of kvs k'"
  by (auto simp: obj_assign_def map_of_replace_key map_of_insert_key)

subsection \<open>Array indices are canonical\<close>

lemma digits_val_snoc: "digits_val (ds @ [c]) = digits_val ds * 10 + digit_val c"
  by (simp add: digits_val_def)

lemma digit_char_digit_val: "is_digit c \<Longrightarrow> digit_char (digit_val c) = c"
  by (simp add: is_digit_def digit_char_def digit_val_def)

lemma digit_val_less: "is_digit c \<Longrightarrow> digit_val c < 10"
  by (auto simp: is_digit_def digit_val_def)

lemma digit_val_pos: "is_digit c \<Longrightarrow> c \<noteq> CHR ''0'' \<Longrightarrow> 0 < digit_val c"
proof -
  assume d: "is_digit c" and n: "c \<noteq> CHR ''0''"
  have "(of_char c :: int) \<noteq> of_char (CHR ''0'')" using n by (simp only: of_char_eq_iff) simp
  then show ?thesis using d by (auto simp: is_digit_def digit_val_def)
qed

lemma digits_val_pos:
  "ds \<noteq> [] \<Longrightarrow> list_all is_digit ds \<Longrightarrow> hd ds \<noteq> CHR ''0'' \<Longrightarrow> 0 < digits_val ds"
proof (induction ds rule: rev_induct)
  case Nil
  then show ?case by simp
next
  case (snoc c ds)
  show ?case
  proof (cases "ds = []")
    case True
    with snoc.prems digit_val_pos[of c] show ?thesis by (simp add: digits_val_def)
  next
    case False
    with snoc have "0 < digits_val ds" by simp
    then show ?thesis by (simp add: digits_val_snoc)
  qed
qed

lemma nat_to_string_digits_val:
  "ds \<noteq> [] \<Longrightarrow> list_all is_digit ds \<Longrightarrow> ds = ''0'' \<or> hd ds \<noteq> CHR ''0'' \<Longrightarrow>
   nat_to_string (digits_val ds) = ds"
proof (induction ds rule: rev_induct)
  case Nil
  then show ?case by simp
next
  case (snoc c ds)
  from snoc.prems have dc: "is_digit c" by simp
  show ?case
  proof (cases "ds = []")
    case True
    have "digits_val [c] = digit_val c" by (simp add: digits_val_def)
    moreover have "nat_digits (digit_val c) = [digit_val c]"
      using digit_val_less[OF dc] by (simp add: nat_digits.simps)
    ultimately show ?thesis using True digit_char_digit_val[OF dc]
      by (simp add: nat_to_string_def)
  next
    case False
    with snoc.prems have hd: "hd ds \<noteq> CHR ''0''" and all: "list_all is_digit ds"
      by (auto simp: hd_append)
    from snoc.IH[OF False all] hd have ih: "nat_to_string (digits_val ds) = ds" by simp
    have pos: "0 < digits_val ds" by (rule digits_val_pos[OF False all hd])
    let ?n = "digits_val ds * 10 + digit_val c"
    have "\<not> ?n < 10" using pos by simp
    then have "nat_digits ?n = nat_digits (?n div 10) @ [?n mod 10]"
      by (subst nat_digits.simps) simp
    moreover have "?n div 10 = digits_val ds" "?n mod 10 = digit_val c"
      using digit_val_less[OF dc] by simp_all
    ultimately show ?thesis using ih digit_char_digit_val[OF dc]
      by (simp add: nat_to_string_def digits_val_snoc)
  qed
qed

lemma array_index_canonical: "array_index k = Some i \<Longrightarrow> k = nat_to_string i"
  by (auto simp: array_index_def nat_to_string_digits_val split: if_splits)

lemma array_index_inj: "array_index k = Some i \<Longrightarrow> array_index k' = Some i \<Longrightarrow> k = k'"
  by (auto dest!: array_index_canonical)


subsection \<open>Walks\<close>

lemma is_container_simps [simp]:
  "is_container (JObj kvs)" "is_container (JArr xs)" "\<not> is_container JNull"
  "\<not> is_container (JBool b)" "\<not> is_container (JNum n)" "\<not> is_container (JStr s)"
  by (simp_all add: is_container_def)

lemma not_object_container: "not_object (Some v) \<longleftrightarrow> \<not> is_container v"
  by (cases v) (simp_all add: not_object_def)

lemma js_get_container: "is_container t \<Longrightarrow> js_get (Some t) s = Inr (get_own t (prop_key s))"
  by (cases t) (simp_all add: js_get_def)

lemma walk_None: "walk None ss = Inr r \<Longrightarrow> r = None"
  by (cases ss) (simp_all add: js_get_def)

lemma get_own_scalar: "\<not> is_container v \<Longrightarrow> get_own v k = Some c \<Longrightarrow> \<not> is_container c"
  by (cases v) (auto simp: get_own_def split: option.splits if_splits)

lemma walk_scalar:
  "\<not> is_container v \<Longrightarrow> walk (Some v) ss = Inr (Some t) \<Longrightarrow> \<not> is_container t"
proof (induction ss arbitrary: v)
  case Nil
  then show ?case by simp
next
  case (Cons s ss)
  from Cons.prems(2) obtain nxt where g: "js_get (Some v) s = Inr nxt"
    and w: "walk nxt ss = Inr (Some t)"
    by (auto split: sum.splits)
  from w walk_None[of ss "Some t"] obtain c where c: "nxt = Some c" by (cases nxt) auto
  from g c have "get_own v (prop_key s) = Some c"
    by (cases v) (simp_all add: js_get_def)
  from get_own_scalar[OF Cons.prems(1) this] Cons.IH[of c] w c show ?case by simp
qed

lemma walk_append:
  "walk cur (xs @ ys) = (case walk cur xs of Inl e \<Rightarrow> Inl e | Inr c \<Rightarrow> walk c ys)"
  by (induction xs arbitrary: cur) (auto split: sum.splits)

text \<open>A walk that ends in an object or an array went through objects and arrays.\<close>

lemma walk_Cons_container:
  assumes "walk (Some root) (s # ss) = Inr (Some t)" and "is_container t"
  obtains c where "is_container root" "get_own root (prop_key s) = Some c"
    "walk (Some c) ss = Inr (Some t)" "is_container c"
proof -
  have r: "is_container root" using walk_scalar[OF _ assms(1)] assms(2) by blast
  from assms(1) r have w: "walk (get_own root (prop_key s)) ss = Inr (Some t)"
    by (simp add: js_get_container)
  then obtain c where c: "get_own root (prop_key s) = Some c"
    using walk_None[of ss "Some t"] by (cases "get_own root (prop_key s)") auto
  with w have wc: "walk (Some c) ss = Inr (Some t)" by simp
  have "is_container c" using walk_scalar[OF _ wc] assms(2) by blast
  with r c wc that show thesis by blast
qed

lemma get_own_set_child_same:
  "is_container root \<Longrightarrow> get_own root k = Some c \<Longrightarrow> is_container c \<Longrightarrow>
   get_own (set_child root k c') k = Some c'"
  by (cases root)
     (auto simp: get_own_def set_child_def map_of_replace_key has_own_map_of
           split: option.splits if_splits)

lemma array_index_length [simp]: "array_index ''length'' = None"
  by (simp add: array_index_def is_digit_def)

lemma array_index_neq: "k' \<noteq> k \<Longrightarrow> array_index k = Some i \<Longrightarrow> array_index k' = Some j \<Longrightarrow> i \<noteq> j"
  using array_index_inj by blast

lemma get_own_set_child_other:
  assumes "k' \<noteq> k"
  shows "get_own (set_child root k c') k' = get_own root k'"
proof (cases root)
  case (JArr xs)
  show ?thesis
  proof (cases "array_index k")
    case None
    then show ?thesis by (simp add: JArr set_child_def)
  next
    case (Some i)
    then show ?thesis using array_index_neq[OF assms Some]
      by (auto simp: JArr set_child_def get_own_def split: option.splits)
  qed
next
  case (JObj kvs)
  then show ?thesis using assms by (simp add: set_child_def get_own_def map_of_replace_key)
qed (simp_all add: set_child_def)

lemma is_container_set_child: "is_container root \<Longrightarrow> is_container (set_child root k c')"
  by (cases root) (auto simp: set_child_def split: option.splits)

text \<open>The operation runs on the value the walk reaches, and the walk then reaches its result.\<close>

lemma update_at_walk:
  assumes "walk (Some root) p = Inr (Some t)" and "is_container t"
    and "f t = Inr t'"
  shows "\<exists>root'. update_at f root p = Inr root' \<and> walk (Some root') p = Inr (Some t')
           \<and> (p \<noteq> [] \<longrightarrow> is_container root')"
  using assms(1)
proof (induction p arbitrary: root)
  case Nil
  with assms show ?case by simp
next
  case (Cons s ss)
  from Cons.prems assms(2) obtain c where r: "is_container root"
    and g: "get_own root (prop_key s) = Some c"
    and w: "walk (Some c) ss = Inr (Some t)" and cc: "is_container c"
    by (rule walk_Cons_container)
  from Cons.IH[OF w] obtain c' where u: "update_at f c ss = Inr c'"
    and w': "walk (Some c') ss = Inr (Some t')" by blast
  let ?r = "set_child root (prop_key s) c'"
  have "update_at f root (s # ss) = Inr ?r" using g u by simp
  moreover have "is_container ?r" by (rule is_container_set_child[OF r])
  moreover have "walk (Some ?r) (s # ss) = Inr (Some t')"
    using w' get_own_set_child_same[OF r g cc] is_container_set_child[OF r]
    by (simp add: js_get_container)
  ultimately show ?case by blast
qed

text \<open>A walk that leaves the path of the operation reads what it read before.\<close>

lemma update_at_frame:
  assumes "walk (Some root) p = Inr (Some t)" and "is_container t"
    and "f t = Inr t'" and "is_container t'"
    and "\<And>k'. k' \<noteq> k \<Longrightarrow> get_own t' k' = get_own t k'"
    and "update_at f root p = Inr root'"
    and "diverge (map prop_key p @ [k]) (map prop_key q)"
  shows "walk (Some root') q = walk (Some root) q"
  using assms(1,6,7)
proof (induction p arbitrary: root root' q)
  case Nil
  then have r: "root = t" "root' = t'" using assms(3) by simp_all
  from Nil(3) obtain s' q' where q: "q = s' # q'" and ne: "prop_key s' \<noteq> k"
    by (cases q) (auto split: if_splits)
  show ?case using assms(2,4) assms(5)[OF ne] by (simp add: r q js_get_container)
next
  case (Cons s ss)
  from Cons.prems(1) assms(2) obtain c where r: "is_container root"
    and g: "get_own root (prop_key s) = Some c"
    and w: "walk (Some c) ss = Inr (Some t)" and cc: "is_container c"
    by (rule walk_Cons_container)
  from Cons.prems(2) g obtain c' where u: "update_at f c ss = Inr c'"
    and r': "root' = set_child root (prop_key s) c'"
    by (auto split: sum.splits)
  have cr': "is_container root'" unfolding r' by (rule is_container_set_child[OF r])
  from Cons.prems(3) obtain s' q' where q: "q = s' # q'" by (cases q) auto
  show ?case
  proof (cases "prop_key s' = prop_key s")
    case True
    with Cons.prems(3) q have d: "diverge (map prop_key ss @ [k]) (map prop_key q')" by simp
    from Cons.IH[OF w u d] show ?thesis
      using True r cr' g get_own_set_child_same[OF r g cc, of c']
      by (simp add: q js_get_container r')
  next
    case False
    then show ?thesis
      using r cr' get_own_set_child_other[OF False, of root c']
      by (simp add: q js_get_container r')
  qed
qed

subsection \<open>The save handler\<close>

text \<open>With a selected node that has a keyed row, the handler is the save of keyed rows.\<close>

lemma handleSave_hasKeys:
  "list_ex (\<lambda>r. r_key r \<noteq> None) (nd_text nd) \<Longrightarrow>
   handleSave (Some nd) flds editText currentJson = Some (syncFields currentJson (nd_path nd) flds)"
  by (simp add: handleSave_def)

lemma handleSave_no_node: "handleSave None flds editText currentJson = None"
  by (simp add: handleSave_def)

subsection \<open>Coercion\<close>






lemma dropWhile_all: "list_all P xs \<Longrightarrow> dropWhile P xs = []"
  by (induction xs) simp_all

lemma trim_blank: "list_all is_str_ws s \<Longrightarrow> trim s = []"
  by (simp add: trim_def dropWhile_all)




text \<open>
  Claim C10. A field of type \<^verbatim>\<open>number\<close> whose text is empty or blank is coerced to
  the number \<open>0\<close>, not to its text.
\<close>

theorem coerce_number_blank:
  assumes "f_type f = ''number''" and "list_all is_str_ws (f_value f)"
  shows "coerce f = JNum (Dec 0 0)"
  using assms by (simp add: coerce_def Number_def Number_isNaN_def trim_blank)

theorem coerce_number_blank_witness:
  "f_type \<lparr>f_key = Some ''n'', f_value = '' '', f_type = ''number''\<rparr> = ''number''
   \<and> list_all is_str_ws (f_value \<lparr>f_key = Some ''n'', f_value = '' '', f_type = ''number''\<rparr>)
   \<and> coerce \<lparr>f_key = Some ''n'', f_value = '' '', f_type = ''number''\<rparr> = JNum (Dec 0 0)
   \<and> coerce \<lparr>f_key = Some ''n'', f_value = '''', f_type = ''number''\<rparr> = JNum (Dec 0 0)"
  using coerce_number_blank [of "\<lparr>f_key = Some ''n'', f_value = '' '', f_type = ''number''\<rparr>"]
    coerce_number_blank [of "\<lparr>f_key = Some ''n'', f_value = '''', f_type = ''number''\<rparr>"]
  by (simp add: is_str_ws_def)



subsection \<open>The read view\<close>



lemma set_insert_key: "set (insert_key k v kvs) = insert (k, v) (set kvs)"
proof (induction kvs)
  case Nil
  show ?case by simp
next
  case (Cons a kvs)
  obtain k' v' where a: "a = (k', v')" by (cases a)
  show ?case unfolding a
    by (simp add: Cons.IH insert_commute split: option.splits)
qed











subsection \<open>Paths that do not resolve\<close>

text \<open>
  Claim C1, at the input where the code departs from it. When the segment that is
  undefined is not the last intermediate one, the walk reads a property of
  \<^verbatim>\<open>undefined\<close> and a \<open>TypeError\<close> escapes before the test that throws
  \<^verbatim>\<open>Invalid path\<close>; when it is the last intermediate one, the test is reached.
\<close>

theorem applyEdit_deep_missing:
  \<open>applyEdit ''{}'' (Some [Key ''x'', Key ''y'', Key ''z'']) (JNum (Dec 1 0)) = Inl TypeError
   \<and> applyEdit ''{}'' (Some [Key ''x'', Key ''y'']) (JNum (Dec 1 0)) = Inl InvalidPath\<close>
  by code_simp


subsection \<open>Edits at a path\<close>

lemma child_get_own: "child t k = Some c \<Longrightarrow> is_container t \<and> get_own t k = Some c"
  by (cases t) (auto simp: child_def get_own_def split: option.splits if_splits)

lemma resolves_snoc:
  "resolves root (pp @ [s]) \<Longrightarrow>
   \<exists>parent old. walk (Some root) pp = Inr (Some parent) \<and> child parent (prop_key s) = Some old"
proof (induction pp arbitrary: root)
  case Nil
  then show ?case by (auto split: option.splits)
next
  case (Cons a pp)
  from Cons.prems obtain c where c: "child root (prop_key a) = Some c"
    and r: "resolves c (pp @ [s])" by (auto split: option.splits)
  from child_get_own[OF c] Cons.IH[OF r] show ?case by (simp add: js_get_container)
qed

lemma js_put_child:
  assumes "child parent k = Some old"
  shows "\<exists>parent'. js_put parent k v = Inr parent' \<and> is_container parent'
           \<and> get_own parent' k = Some v
           \<and> (\<forall>k'. k' \<noteq> k \<longrightarrow> get_own parent' k' = get_own parent k')"
proof (cases parent)
  case (JObj kvs)
  with assms have h: "has_own kvs k" by (simp add: child_def has_own_map_of)
  then show ?thesis
    by (simp add: JObj js_put_def obj_assign_def get_own_def map_of_replace_key)
next
  case (JArr xs)
  with assms obtain i where i: "array_index k = Some i" "i < length xs"
    by (auto simp: child_def split: option.splits if_splits)
  have "\<And>k' j. k' \<noteq> k \<Longrightarrow> array_index k' = Some j \<Longrightarrow> xs[i := v] ! j = xs ! j"
    using array_index_neq[OF _ i(1)] by simp
  then show ?thesis using i
    by (auto simp: JArr js_put_def get_own_def split: option.splits)
qed (use assms in \<open>simp_all add: child_def\<close>)

lemma resolves_walk: "resolves root p \<Longrightarrow> \<exists>t. walk (Some root) p = Inr (Some t)"
proof (induction p arbitrary: root)
  case Nil
  show ?case by simp
next
  case (Cons s p)
  from Cons.prems obtain c where c: "child root (prop_key s) = Some c" and r: "resolves c p"
    by (auto split: option.splits)
  from child_get_own[OF c] Cons.IH[OF r] show ?case by (simp add: js_get_container)
qed

text \<open>The edit at a path that resolves: the new value at the path, the rest as it was.\<close>

lemma applyEdit_at_resolving:
  assumes "JSON_parse rawJson = Inr root" and "p \<noteq> []" and "resolves root p"
  shows "\<exists>root'. applyEdit rawJson (Some p) v = Inr (JSON_stringify2 root')
           \<and> walk (Some root') p = Inr (Some v)
           \<and> (\<forall>q. diverge (map prop_key p) (map prop_key q)
                  \<longrightarrow> walk (Some root') q = walk (Some root) q)"
proof -
  define pp where "pp = butlast p"
  define s where "s = last p"
  define k where "k = prop_key s"
  from assms(2) have p: "p = pp @ [s]" by (simp add: pp_def s_def)
  with assms(3) obtain parent old where w: "walk (Some root) pp = Inr (Some parent)"
    and c: "child parent k = Some old"
    using resolves_snoc[of root pp s] by (auto simp: k_def)
  from js_put_child[OF c, of v] obtain parent' where put: "js_put parent k v = Inr parent'"
    and cp: "is_container parent'" and same: "get_own parent' k = Some v"
    and other: "\<And>k'. k' \<noteq> k \<Longrightarrow> get_own parent' k' = get_own parent k'"
    by blast
  from child_get_own[OF c] have cpar: "is_container parent" by simp
  from update_at_walk[OF w cpar, of "\<lambda>x. js_put x k v" parent'] put
  obtain root' where u: "update_at (\<lambda>x. js_put x k v) root pp = Inr root'"
    and w': "walk (Some root') pp = Inr (Some parent')" by auto
  have res: "applyEdit rawJson (Some p) v = Inr (JSON_stringify2 root')"
    using assms(1,2) w u
    by (simp add: applyEdit_def pp_def[symmetric] s_def[symmetric] k_def[symmetric])
  have rd: "walk (Some root') p = Inr (Some v)"
    using w' cp same by (simp add: p walk_append js_get_container k_def)
  have fr: "\<forall>q. diverge (map prop_key p) (map prop_key q)
              \<longrightarrow> walk (Some root') q = walk (Some root) q"
  proof (intro allI impI)
    fix q
    assume "diverge (map prop_key p) (map prop_key q)"
    then have d: "diverge (map prop_key pp @ [k]) (map prop_key q)" by (simp add: p k_def)
    show "walk (Some root') q = walk (Some root) q"
      by (rule update_at_frame[OF w cpar put cp other u d])
  qed
  from res rd fr show ?thesis by blast
qed

text \<open>
  Claim C7. For a document text that parses, an edit with an absent or empty path
  returns the new value, serialised with indentation, as the whole document. An edit
  at a non-empty path that resolves returns the serialisation of a tree in which the
  path leads to the new value and every walk that leaves the path reads what it read
  in the parsed document: siblings and their contents are preserved.
\<close>

theorem applyEdit_replaces:
  assumes "JSON_parse rawJson = Inr root"
  shows "applyEdit rawJson None v = Inr (JSON_stringify2 v)
     \<and> applyEdit rawJson (Some []) v = Inr (JSON_stringify2 v)
     \<and> (p \<noteq> [] \<and> resolves root p \<longrightarrow>
          (\<exists>root'. applyEdit rawJson (Some p) v = Inr (JSON_stringify2 root')
             \<and> walk (Some root') p = Inr (Some v)
             \<and> (\<forall>q. diverge (map prop_key p) (map prop_key q)
                    \<longrightarrow> walk (Some root') q = walk (Some root) q)))"
proof (intro conjI impI)
  show "applyEdit rawJson None v = Inr (JSON_stringify2 v)"
    using assms by (simp add: applyEdit_def)
  show "applyEdit rawJson (Some []) v = Inr (JSON_stringify2 v)"
    using assms by (simp add: applyEdit_def)
next
  assume a: "p \<noteq> [] \<and> resolves root p"
  then show "\<exists>root'. applyEdit rawJson (Some p) v = Inr (JSON_stringify2 root')
          \<and> walk (Some root') p = Inr (Some v)
          \<and> (\<forall>q. diverge (map prop_key p) (map prop_key q)
                 \<longrightarrow> walk (Some root') q = walk (Some root) q)"
    using applyEdit_at_resolving[OF assms, of p v] by blast
qed

theorem applyEdit_replaces_witness:
  \<open>JSON_parse ''{"a":{"b":1,"c":[1,2]}}''
     = Inr (JObj [(''a'', JObj [(''b'', JNum (Dec 1 0)), (''c'', JArr [JNum (Dec 1 0), JNum (Dec 2 0)])])])
   \<and> resolves (JObj [(''a'', JObj [(''b'', JNum (Dec 1 0)), (''c'', JArr [JNum (Dec 1 0), JNum (Dec 2 0)])])])
        [Key ''a'', Key ''b'']
   \<and> applyEdit ''{"a":{"b":1,"c":[1,2]}}'' None (JNum (Dec 99 0)) = Inr ''99''
   \<and> (\<exists>root'. applyEdit ''{"a":{"b":1,"c":[1,2]}}'' (Some [Key ''a'', Key ''b'']) (JNum (Dec 99 0))
                 = Inr (JSON_stringify2 root')
         \<and> walk (Some root') [Key ''a'', Key ''b''] = Inr (Some (JNum (Dec 99 0)))
         \<and> walk (Some root') [Key ''a'', Key ''c'']
             = Inr (Some (JArr [JNum (Dec 1 0), JNum (Dec 2 0)])))
   \<and> parsed_result (applyEdit ''{"a":{"b":1,"c":[1,2]}}'' (Some [Key ''a'', Key ''b'']) (JNum (Dec 99 0)))
     = Inr (JObj [(''a'', JObj [(''b'', JNum (Dec 99 0)), (''c'', JArr [JNum (Dec 1 0), JNum (Dec 2 0)])])])\<close>
proof -
  let ?R = "JObj [(''a'', JObj [(''b'', JNum (Dec 1 0)), (''c'', JArr [JNum (Dec 1 0), JNum (Dec 2 0)])])]"
  have parse: \<open>JSON_parse ''{"a":{"b":1,"c":[1,2]}}'' = Inr ?R\<close> by code_simp
  have res: "resolves ?R [Key ''a'', Key ''b'']" by code_simp
  have s99: "JSON_stringify2 (JNum (Dec 99 0)) = ''99''" by code_simp
  have dv: "diverge (map prop_key [Key ''a'', Key ''b'']) (map prop_key [Key ''a'', Key ''c''])"
    by code_simp
  have old: "walk (Some ?R) [Key ''a'', Key ''c''] = Inr (Some (JArr [JNum (Dec 1 0), JNum (Dec 2 0)]))"
    by code_simp
  have ev: \<open>parsed_result (applyEdit ''{"a":{"b":1,"c":[1,2]}}'' (Some [Key ''a'', Key ''b'']) (JNum (Dec 99 0)))
     = Inr (JObj [(''a'', JObj [(''b'', JNum (Dec 99 0)), (''c'', JArr [JNum (Dec 1 0), JNum (Dec 2 0)])])])\<close>
    by code_simp
  note t = applyEdit_replaces [OF parse, of "JNum (Dec 99 0)" "[Key ''a'', Key ''b'']"]
  from t have root_edit: \<open>applyEdit ''{"a":{"b":1,"c":[1,2]}}'' None (JNum (Dec 99 0)) = Inr ''99''\<close>
    by (simp add: s99)
  from t res obtain root' where
    r1: \<open>applyEdit ''{"a":{"b":1,"c":[1,2]}}'' (Some [Key ''a'', Key ''b'']) (JNum (Dec 99 0))
          = Inr (JSON_stringify2 root')\<close>
    and r2: "walk (Some root') [Key ''a'', Key ''b''] = Inr (Some (JNum (Dec 99 0)))"
    and r3: "\<forall>q. diverge (map prop_key [Key ''a'', Key ''b'']) (map prop_key q)
                \<longrightarrow> walk (Some root') q = walk (Some ?R) q"
    by blast
  from r3 dv old have r4: "walk (Some root') [Key ''a'', Key ''c'']
             = Inr (Some (JArr [JNum (Dec 1 0), JNum (Dec 2 0)]))" by metis
  from parse res root_edit r1 r2 r4 ev show ?thesis by blast
qed

lemma js_put_insert:
  assumes "(\<exists>kvs. parent = JObj kvs \<and> \<not> has_own kvs k \<and> k \<noteq> ''__proto__'')
         \<or> (\<exists>xs i. parent = JArr xs \<and> array_index k = Some i \<and> length xs \<le> i)"
  shows "js_put parent k v
           = Inr (case parent of
                    JObj kvs \<Rightarrow> JObj (insert_key k v kvs)
                  | JArr xs \<Rightarrow> JArr (xs @ replicate (the (array_index k) - length xs) JNull @ [v])
                  | _ \<Rightarrow> parent)
         \<and> get_own (case parent of
                    JObj kvs \<Rightarrow> JObj (insert_key k v kvs)
                  | JArr xs \<Rightarrow> JArr (xs @ replicate (the (array_index k) - length xs) JNull @ [v])
                  | _ \<Rightarrow> parent) k = Some v
         \<and> is_container parent"
  using assms
  by (auto simp: js_put_def obj_assign_def get_own_def map_of_insert_key nth_append)

text \<open>
  Claim C9, as amended. When the intermediate segments lead to an object that lacks
  the final key (other than \<^verbatim>\<open>__proto__\<close>), or to an array whose length the final
  index reaches or exceeds, the edit succeeds and inserts: the object gains the key,
  the array grows to the index, holes serialising as null.
\<close>

theorem applyEdit_inserts:
  assumes "JSON_parse rawJson = Inr root"
    and "walk (Some root) pp = Inr (Some parent)"
    and "(\<exists>kvs. parent = JObj kvs \<and> \<not> has_own kvs (prop_key s) \<and> prop_key s \<noteq> ''__proto__'')
         \<or> (\<exists>xs i. parent = JArr xs \<and> array_index (prop_key s) = Some i \<and> length xs \<le> i)"
  shows "\<exists>root'. applyEdit rawJson (Some (pp @ [s])) v = Inr (JSON_stringify2 root')
           \<and> walk (Some root') (pp @ [s]) = Inr (Some v)
           \<and> walk (Some root') pp
               = Inr (Some (case parent of
                              JObj kvs \<Rightarrow> JObj (insert_key (prop_key s) v kvs)
                            | JArr xs \<Rightarrow>
                                JArr (xs @ replicate (the (array_index (prop_key s)) - length xs) JNull @ [v])
                            | _ \<Rightarrow> parent))"
proof -
  let ?k = "prop_key s"
  let ?parent' = "case parent of
                    JObj kvs \<Rightarrow> JObj (insert_key ?k v kvs)
                  | JArr xs \<Rightarrow> JArr (xs @ replicate (the (array_index ?k) - length xs) JNull @ [v])
                  | _ \<Rightarrow> parent"
  from js_put_insert[OF assms(3), of v]
  have put: "js_put parent ?k v = Inr ?parent'" and same: "get_own ?parent' ?k = Some v"
    and cpar: "is_container parent" by simp_all
  have cp: "is_container ?parent'" using assms(3) by auto
  from update_at_walk[OF assms(2) cpar, of "\<lambda>x. js_put x ?k v" ?parent'] put
  obtain root' where u: "update_at (\<lambda>x. js_put x ?k v) root pp = Inr root'"
    and w': "walk (Some root') pp = Inr (Some ?parent')" by auto
  have "applyEdit rawJson (Some (pp @ [s])) v = Inr (JSON_stringify2 root')"
    using assms(1,2) u by (simp add: applyEdit_def)
  moreover have "walk (Some root') (pp @ [s]) = Inr (Some v)"
    using w' cp same by (simp add: walk_append js_get_container)
  ultimately show ?thesis using w' by blast
qed

theorem applyEdit_inserts_witness:
  \<open>JSON_parse ''{"a":{"b":1},"c":[7]}''
     = Inr (JObj [(''a'', JObj [(''b'', JNum (Dec 1 0))]), (''c'', JArr [JNum (Dec 7 0)])])
   \<and> parsed_result (applyEdit ''{"a":{"b":1},"c":[7]}'' (Some [Key ''a'', Key ''x'']) (JBool True))
       = Inr (JObj [(''a'', JObj [(''b'', JNum (Dec 1 0)), (''x'', JBool True)]), (''c'', JArr [JNum (Dec 7 0)])])
   \<and> (\<exists>root'. applyEdit ''{"a":{"b":1},"c":[7]}'' (Some [Key ''a'', Key ''x'']) (JBool True)
                 = Inr (JSON_stringify2 root')
         \<and> walk (Some root') [Key ''a'', Key ''x''] = Inr (Some (JBool True)))
   \<and> (\<exists>root'. applyEdit ''{"a":{"b":1},"c":[7]}'' (Some [Key ''c'', Index 2]) (JBool True)
                 = Inr (JSON_stringify2 root')
         \<and> walk (Some root') [Key ''c''] = Inr (Some (JArr [JNum (Dec 7 0), JNull, JBool True])))\<close>
proof -
  let ?R = "JObj [(''a'', JObj [(''b'', JNum (Dec 1 0))]), (''c'', JArr [JNum (Dec 7 0)])]"
  have parse: \<open>JSON_parse ''{"a":{"b":1},"c":[7]}'' = Inr ?R\<close> by code_simp
  have wa: "walk (Some ?R) [Key ''a''] = Inr (Some (JObj [(''b'', JNum (Dec 1 0))]))" by code_simp
  have wc: "walk (Some ?R) [Key ''c''] = Inr (Some (JArr [JNum (Dec 7 0)]))" by code_simp
  have ha: "(\<exists>kvs. JObj [(''b'', JNum (Dec 1 0))] = JObj kvs \<and> \<not> has_own kvs (prop_key (Key ''x''))
                \<and> prop_key (Key ''x'') \<noteq> ''__proto__'')
         \<or> (\<exists>xs i. JObj [(''b'', JNum (Dec 1 0))] = JArr xs \<and> array_index (prop_key (Key ''x'')) = Some i
                \<and> length xs \<le> i)"
    by (simp add: has_own_def prop_key_def)
  have i2: "array_index (prop_key (Index 2)) = Some 2" by code_simp
  have hc: "(\<exists>kvs. JArr [JNum (Dec 7 0)] = JObj kvs \<and> \<not> has_own kvs (prop_key (Index 2))
                \<and> prop_key (Index 2) \<noteq> ''__proto__'')
         \<or> (\<exists>xs i. JArr [JNum (Dec 7 0)] = JArr xs \<and> array_index (prop_key (Index 2)) = Some i
                \<and> length xs \<le> i)"
    using i2 by simp
  have ev: \<open>parsed_result (applyEdit ''{"a":{"b":1},"c":[7]}'' (Some [Key ''a'', Key ''x'']) (JBool True))
       = Inr (JObj [(''a'', JObj [(''b'', JNum (Dec 1 0)), (''x'', JBool True)]), (''c'', JArr [JNum (Dec 7 0)])])\<close>
    by code_simp
  from applyEdit_inserts [OF parse wa ha, of "JBool True"]
  have a: \<open>\<exists>root'. applyEdit ''{"a":{"b":1},"c":[7]}'' (Some [Key ''a'', Key ''x'']) (JBool True)
                 = Inr (JSON_stringify2 root')
         \<and> walk (Some root') [Key ''a'', Key ''x''] = Inr (Some (JBool True))\<close>
    by auto
  from applyEdit_inserts [OF parse wc hc, of "JBool True"] i2
  have c: \<open>\<exists>root'. applyEdit ''{"a":{"b":1},"c":[7]}'' (Some [Key ''c'', Index 2]) (JBool True)
                 = Inr (JSON_stringify2 root')
         \<and> walk (Some root') [Key ''c''] = Inr (Some (JArr [JNum (Dec 7 0), JNull, JBool True]))\<close>
    by (auto simp: numeral_2_eq_2)
  from parse ev a c show ?thesis by blast
qed


text \<open>
  An intermediate that resolves to \<^verbatim>\<open>null\<close> or to a number is not
  \<^verbatim>\<open>undefined\<close>, passes the test, and the write on it throws a \<open>TypeError\<close>:
  the edit does not succeed.
\<close>

theorem applyEdit_null_parent_counterexample:
  \<open>walk (Some (JObj [(''a'', JNull)])) [Key ''a''] = Inr (Some JNull)
   \<and> JSON_parse ''{"a":null}'' = Inr (JObj [(''a'', JNull)])
   \<and> applyEdit ''{"a":null}'' (Some [Key ''a'', Key ''b'']) (JNum (Dec 1 0)) = Inl TypeError
   \<and> walk (Some (JObj [(''a'', JNum (Dec 5 0))])) [Key ''a''] = Inr (Some (JNum (Dec 5 0)))
   \<and> JSON_parse ''{"a":5}'' = Inr (JObj [(''a'', JNum (Dec 5 0))])
   \<and> applyEdit ''{"a":5}'' (Some [Key ''a'', Key ''b'']) (JNum (Dec 1 0)) = Inl TypeError\<close>
  by code_simp

subsection \<open>The save of keyed rows\<close>

lemma map_fst_replace_key: "map fst (replace_key k v kvs) = map fst kvs"
  by (induction kvs) auto

lemma set_fst_insert_key: "fst ` set (insert_key k v kvs) = insert k (fst ` set kvs)"
  by (simp add: set_insert_key)

lemma distinct_insert_key:
  "distinct (map fst kvs) \<Longrightarrow> k \<notin> fst ` set kvs \<Longrightarrow> distinct (map fst (insert_key k v kvs))"
proof (induction kvs)
  case Nil
  then show ?case by simp
next
  case (Cons a kvs)
  then have ih: "distinct (map fst (insert_key k v kvs))" by simp
  from Cons.prems have na: "fst a \<notin> fst ` set (insert_key k v kvs)"
    by (auto simp: set_fst_insert_key)
  obtain k' v' where a: "a = (k', v')" by (cases a)
  show ?case using Cons.prems ih na
    by (auto simp: a split: option.splits)
qed

lemma keys_plain_assign:
  "fst ` set (po_own (plain_assign kind k v obj)) \<subseteq> insert k (fst ` set (po_own obj))"
proof -
  have "fst ` set (replace_key k v (po_own obj)) = fst ` set (po_own obj)"
    using map_fst_replace_key[of k v "po_own obj"] by (metis set_map)
  then show ?thesis by (auto simp: plain_assign_def set_fst_insert_key)
qed

lemma distinct_plain_assign:
  "distinct (map fst (po_own obj)) \<Longrightarrow> distinct (map fst (po_own (plain_assign kind k v obj)))"
  by (auto simp: plain_assign_def map_fst_replace_key has_own_def intro: distinct_insert_key)

text \<open>What holds of the object built from the fields, at every step of its construction.\<close>

lemma foldl_field_step_inv:
  assumes "distinct (map fst (po_own acc))"
    and "\<forall>k \<in> fst ` set (po_own acc). k \<noteq> [] \<and> list_ex (\<lambda>f. f_key f = Some k) (done @ flds)"
  shows "distinct (map fst (po_own (foldl field_step acc flds)))
       \<and> (\<forall>k \<in> fst ` set (po_own (foldl field_step acc flds)).
             k \<noteq> [] \<and> list_ex (\<lambda>f. f_key f = Some k) (done @ flds))"
  using assms
proof (induction flds arbitrary: acc "done")
  case Nil
  then show ?case by simp
next
  case (Cons f flds)
  let ?acc = "field_step acc f"
  have d: "distinct (map fst (po_own ?acc))"
    using Cons.prems(1) by (simp add: field_step_def distinct_plain_assign)
  have k: "\<forall>k \<in> fst ` set (po_own ?acc).
             k \<noteq> [] \<and> list_ex (\<lambda>f. f_key f = Some k) ((done @ [f]) @ flds)"
  proof
    fix k assume kin: "k \<in> fst ` set (po_own ?acc)"
    show "k \<noteq> [] \<and> list_ex (\<lambda>f. f_key f = Some k) ((done @ [f]) @ flds)"
    proof (cases "falsy_key (f_key f)")
      case True
      with kin Cons.prems(2) show ?thesis by (auto simp: field_step_def)
    next
      case False
      then obtain kf where kf: "f_key f = Some kf" "kf \<noteq> []" by (auto simp: falsy_key_def)
      from kin False kf have "k = kf \<or> k \<in> fst ` set (po_own acc)"
        using keys_plain_assign[of json_kind kf "coerce f" acc] by (auto simp: field_step_def)
      then show ?thesis using kf Cons.prems(2) by (auto simp: list_ex_iff)
    qed
  qed
  from Cons.IH[OF d k] show ?case by simp
qed

lemma updatedObj_keys:
  "distinct (map fst (updatedObj flds))"
  "k \<in> fst ` set (updatedObj flds) \<Longrightarrow> k \<noteq> [] \<and> list_ex (\<lambda>f. f_key f = Some k) flds"
  using foldl_field_step_inv[of new_object "[]" flds]
  by (auto simp: updatedObj_def new_object_def)

lemma map_of_filter_keys:
  "map_of (filter (\<lambda>kv. fst kv \<notin> S) kvs) k = (if k \<in> S then None else map_of kvs k)"
  by (induction kvs) auto

text \<open>
  The writes of the keys of an object, one after the other: each key takes its value,
  except \<^verbatim>\<open>__proto__\<close> where the target has no own property of that name.
\<close>

lemma map_of_foldl_assign:
  assumes "distinct (map fst us)"
  shows "map_of (foldl (\<lambda>obj kv. obj_assign (fst kv) (snd kv) obj) acc us) k
         = (case map_of us k of
              Some v \<Rightarrow> if k = ''__proto__'' \<and> \<not> has_own acc k then None else Some v
            | None \<Rightarrow> map_of acc k)"
  using assms
proof (induction us arbitrary: acc)
  case Nil
  then show ?case by simp
next
  case (Cons u us)
  obtain ku vu where u: "u = (ku, vu)" by (cases u)
  from Cons.prems u have nin: "ku \<notin> fst ` set us" and d': "distinct (map fst us)"
    by auto
  from nin have none: "map_of us ku = None" by (simp add: map_of_eq_None_iff)
  let ?acc = "obj_assign ku vu acc"
  have other: "\<And>k'. k' \<noteq> ku \<Longrightarrow> map_of ?acc k' = map_of acc k'"
    by (rule map_of_obj_assign_other)
  have own_other: "\<And>k'. k' \<noteq> ku \<Longrightarrow> has_own ?acc k' = has_own acc k'"
    using other by (simp add: has_own_map_of)
  show ?case
  proof (cases "k = ku")
    case True
    have "map_of ?acc ku = (if ku = ''__proto__'' \<and> \<not> has_own acc ku then None else Some vu)"
      by (auto simp: obj_assign_def map_of_replace_key map_of_insert_key has_own_map_of)
    then show ?thesis using Cons.IH[OF d', of ?acc] none True by (simp add: u)
  next
    case False
    then show ?thesis using Cons.IH[OF d', of ?acc] other[of k] own_other[of k]
      by (simp add: u split: option.splits)
  qed
qed

lemma foldl_js_delete_obj:
  "foldl js_delete (JObj kvs) ks = JObj (filter (\<lambda>kv. fst kv \<notin> set ks) kvs)"
proof (induction ks arbitrary: kvs)
  case Nil
  then show ?case by simp
next
  case (Cons k ks)
  have "filter (\<lambda>kv. fst kv \<notin> set ks) (filter (\<lambda>kv. fst kv \<noteq> k) kvs)
        = filter (\<lambda>kv. fst kv \<notin> set (k # ks)) kvs"
    by (induction kvs) auto
  with Cons.IH[of "filter (\<lambda>kv. fst kv \<noteq> k) kvs"] show ?case
    by (simp add: js_delete_def)
qed

lemma put_all_obj:
  "put_all (JObj kvs) us = Inr (JObj (foldl (\<lambda>obj kv. obj_assign (fst kv) (snd kv) obj) kvs us))"
  by (induction us arbitrary: kvs) (auto simp: js_put_def)

lemma merge_target_obj: "merge_target flds (JObj kvs) = Inr (JObj (merged_object kvs flds))"
  by (simp add: merge_target_def merged_object_def foldl_js_delete_obj put_all_obj)

lemma keysToDelete_obj:
  "k \<in> set (keysToDelete (JObj kvs) flds) \<longleftrightarrow>
     (\<exists>v. map_of kvs k = Some v \<and> \<not> is_container v) \<and> \<not> list_ex (\<lambda>f. f_key f = Some k) flds"
proof -
  have "k \<in> fst ` set kvs \<longleftrightarrow> (\<exists>v. map_of kvs k = Some v)"
    by (metis map_of_eq_None_iff not_None_eq)
  then show ?thesis
    by (auto simp: keysToDelete_def Object_keys_def get_own_def not_object_container)
qed

lemma map_of_merged_object:
  "map_of (merged_object kvs flds) k =
     (case map_of (updatedObj flds) k of
        Some v \<Rightarrow> if k = ''__proto__'' \<and> \<not> has_own kvs k then None else Some v
      | None \<Rightarrow> if k \<in> set (keysToDelete (JObj kvs) flds) then None else map_of kvs k)"
proof (cases "map_of (updatedObj flds) k")
  case None
  then show ?thesis unfolding merged_object_def
    by (simp add: map_of_foldl_assign[OF updatedObj_keys(1)] map_of_filter_keys)
next
  case (Some v)
  then have "k \<in> fst ` set (updatedObj flds)" by (metis map_of_eq_None_iff option.distinct(1))
  from updatedObj_keys(2)[OF this] have "k \<notin> set (keysToDelete (JObj kvs) flds)"
    by (simp add: keysToDelete_obj)
  then have "has_own (filter (\<lambda>kv. fst kv \<notin> set (keysToDelete (JObj kvs) flds)) kvs) k
               = has_own kvs k"
    by (simp add: has_own_map_of map_of_filter_keys)
  with Some show ?thesis unfolding merged_object_def
    by (simp add: map_of_foldl_assign[OF updatedObj_keys(1)])
qed

text \<open>The save of an object target: the merge, in place.\<close>

lemma syncFields_object:
  assumes "JSON_parse currentJson = Inr root"
    and "walk (Some root) (segments path) = Inr (Some (JObj kvs))"
  shows "\<exists>root'. syncFields currentJson path flds = Inr (JSON_stringify2 root')
           \<and> walk (Some root') (segments path) = Inr (Some (JObj (merged_object kvs flds)))"
proof -
  from update_at_walk[where f = "merge_target flds" and t' = "JObj (merged_object kvs flds)",
      OF assms(2)] merge_target_obj[of flds kvs]
  obtain root' where u: "update_at (merge_target flds) root (segments path) = Inr root'"
    and w: "walk (Some root') (segments path) = Inr (Some (JObj (merged_object kvs flds)))"
    by auto
  have "syncFields currentJson path flds = Inr (JSON_stringify2 root')"
    using assms u by (simp add: syncFields_def not_object_def)
  with w show ?thesis by blast
qed

text \<open>
  Claim C6, as amended. When the target is an object, the save returns the
  serialisation of a tree in which the path leads to an object where every
  primitive-valued key of the target that no field names is absent, and every key of
  the coerced mapping holds the coerced value, unless the key is \<^verbatim>\<open>__proto__\<close> and
  the target has no own property of that name.
\<close>

theorem syncFields_merges:
  assumes "JSON_parse currentJson = Inr root"
    and "walk (Some root) (segments path) = Inr (Some (JObj kvs))"
  shows "\<exists>root' kvs'. syncFields currentJson path flds = Inr (JSON_stringify2 root')
           \<and> walk (Some root') (segments path) = Inr (Some (JObj kvs'))
           \<and> (\<forall>k v. map_of kvs k = Some v \<and> \<not> is_container v
                      \<and> \<not> list_ex (\<lambda>f. f_key f = Some k) flds
                  \<longrightarrow> map_of kvs' k = None)
           \<and> (\<forall>k v. map_of (updatedObj flds) k = Some v
                      \<and> (k \<noteq> ''__proto__'' \<or> has_own kvs ''__proto__'')
                  \<longrightarrow> map_of kvs' k = Some v)"
proof -
  from syncFields_object[OF assms, of flds] obtain root' where
    r: "syncFields currentJson path flds = Inr (JSON_stringify2 root')"
    and w: "walk (Some root') (segments path) = Inr (Some (JObj (merged_object kvs flds)))"
    by blast
  have del: "\<forall>k v. map_of kvs k = Some v \<and> \<not> is_container v
                      \<and> \<not> list_ex (\<lambda>f. f_key f = Some k) flds
                  \<longrightarrow> map_of (merged_object kvs flds) k = None"
  proof (intro allI impI)
    fix k v
    assume a: "map_of kvs k = Some v \<and> \<not> is_container v
                 \<and> \<not> list_ex (\<lambda>f. f_key f = Some k) flds"
    then have "k \<notin> fst ` set (updatedObj flds)" using updatedObj_keys(2)[of k flds] by blast
    then have n: "map_of (updatedObj flds) k = None" by (simp add: map_of_eq_None_iff)
    from a have "k \<in> set (keysToDelete (JObj kvs) flds)" by (auto simp: keysToDelete_obj)
    with n show "map_of (merged_object kvs flds) k = None"
      by (simp add: map_of_merged_object)
  qed
  have put: "\<forall>k v. map_of (updatedObj flds) k = Some v
                      \<and> (k \<noteq> ''__proto__'' \<or> has_own kvs ''__proto__'')
                \<longrightarrow> map_of (merged_object kvs flds) k = Some v"
    by (auto simp: map_of_merged_object)
  from r w del put show ?thesis by blast
qed

theorem syncFields_merges_witness:
  \<open>JSON_parse ''{"a":{"b":1,"c":"keep","d":{"e":1}}}''
     = Inr (JObj [(''a'', JObj [(''b'', JNum (Dec 1 0)), (''c'', JStr ''keep''),
                               (''d'', JObj [(''e'', JNum (Dec 1 0))])])])
   \<and> parsed_result (syncFields ''{"a":{"b":1,"c":"keep","d":{"e":1}}}'' (Some [Key ''a''])
        [\<lparr>f_key = Some ''b'', f_value = ''99'', f_type = ''number''\<rparr>])
     = Inr (JObj [(''a'', JObj [(''b'', JNum (Dec 99 0)), (''d'', JObj [(''e'', JNum (Dec 1 0))])])])
   \<and> (\<exists>root' kvs'. syncFields ''{"a":{"b":1,"c":"keep","d":{"e":1}}}'' (Some [Key ''a''])
                       [\<lparr>f_key = Some ''b'', f_value = ''99'', f_type = ''number''\<rparr>]
                     = Inr (JSON_stringify2 root')
         \<and> walk (Some root') [Key ''a''] = Inr (Some (JObj kvs'))
         \<and> map_of kvs' ''c'' = None
         \<and> map_of kvs' ''b'' = Some (JNum (Dec 99 0)))\<close>
proof -
  let ?T = "[(''b'', JNum (Dec 1 0)), (''c'', JStr ''keep''), (''d'', JObj [(''e'', JNum (Dec 1 0))])]"
  let ?R = "JObj [(''a'', JObj ?T)]"
  let ?F = "[\<lparr>f_key = Some ''b'', f_value = ''99'', f_type = ''number''\<rparr>]"
  have parse: \<open>JSON_parse ''{"a":{"b":1,"c":"keep","d":{"e":1}}}'' = Inr ?R\<close> by code_simp
  have w: "walk (Some ?R) (segments (Some [Key ''a''])) = Inr (Some (JObj ?T))" by code_simp
  have ev: \<open>parsed_result (syncFields ''{"a":{"b":1,"c":"keep","d":{"e":1}}}'' (Some [Key ''a'']) ?F)
     = Inr (JObj [(''a'', JObj [(''b'', JNum (Dec 99 0)), (''d'', JObj [(''e'', JNum (Dec 1 0))])])])\<close>
    by code_simp
  have u: "updatedObj ?F = [(''b'', JNum (Dec 99 0))]" by code_simp
  have c: "map_of ?T ''c'' = Some (JStr ''keep'')" "\<not> is_container (JStr ''keep'')"
    "\<not> list_ex (\<lambda>f. f_key f = Some ''c'') ?F" by simp_all
  from syncFields_merges [OF parse w, of ?F] obtain root' kvs' where
    r: \<open>syncFields ''{"a":{"b":1,"c":"keep","d":{"e":1}}}'' (Some [Key ''a'']) ?F
          = Inr (JSON_stringify2 root')\<close>
    and w': "walk (Some root') (segments (Some [Key ''a''])) = Inr (Some (JObj kvs'))"
    and del: "\<forall>k v. map_of ?T k = Some v \<and> \<not> is_container v
                      \<and> \<not> list_ex (\<lambda>f. f_key f = Some k) ?F
                  \<longrightarrow> map_of kvs' k = None"
    and put: "\<forall>k v. map_of (updatedObj ?F) k = Some v
                      \<and> (k \<noteq> ''__proto__'' \<or> has_own ?T ''__proto__'')
                  \<longrightarrow> map_of kvs' k = Some v"
    by blast
  from del c have dc: "map_of kvs' ''c'' = None" by blast
  have "map_of (updatedObj ?F) ''b'' = Some (JNum (Dec 99 0))" by (simp add: u)
  with put have pb: "map_of kvs' ''b'' = Some (JNum (Dec 99 0))" by auto
  from w' have w'': "walk (Some root') [Key ''a''] = Inr (Some (JObj kvs'))"
    by (simp add: segments_def)
  from parse ev r w'' dc pb show ?thesis by blast
qed

text \<open>
  A field of type \<^verbatim>\<open>null\<close> with the key \<^verbatim>\<open>__proto__\<close> takes the prototype
  from the object built from the fields, and a later field with that key then becomes
  an own property of it. The write of that key on the target reaches the setter and
  sets nothing.
\<close>

theorem proto_key_not_set_counterexample:
  \<open>updatedObj [\<lparr>f_key = Some ''__proto__'', f_value = [], f_type = ''null''\<rparr>,
               \<lparr>f_key = Some ''__proto__'', f_value = ''x'', f_type = ''string''\<rparr>]
     = [(''__proto__'', JStr ''x'')]
   \<and> JSON_parse ''{"a":{}}'' = Inr (JObj [(''a'', JObj [])])
   \<and> parsed_result (syncFields ''{"a":{}}'' (Some [Key ''a''])
        [\<lparr>f_key = Some ''__proto__'', f_value = [], f_type = ''null''\<rparr>,
         \<lparr>f_key = Some ''__proto__'', f_value = ''x'', f_type = ''string''\<rparr>])
     = Inr (JObj [(''a'', JObj [])])\<close>
  by code_simp

text \<open>
  Claim C3, as amended. When the target is an object, a key whose value is an object
  or an array is never deleted; it keeps its value when no field names it, and takes
  the coerced value of the field when the coerced mapping has that key.
\<close>

theorem syncFields_keeps_nested:
  assumes "JSON_parse currentJson = Inr root"
    and "walk (Some root) (segments path) = Inr (Some (JObj kvs))"
  shows "\<exists>root' kvs'. syncFields currentJson path flds = Inr (JSON_stringify2 root')
           \<and> walk (Some root') (segments path) = Inr (Some (JObj kvs'))
           \<and> (\<forall>k v. map_of kvs k = Some v \<and> is_container v
                  \<longrightarrow> k \<notin> set (keysToDelete (JObj kvs) flds))
           \<and> (\<forall>k v. map_of kvs k = Some v \<and> is_container v
                      \<and> \<not> list_ex (\<lambda>f. f_key f = Some k) flds
                  \<longrightarrow> map_of kvs' k = Some v)
           \<and> (\<forall>k v u. map_of kvs k = Some v \<and> is_container v
                      \<and> map_of (updatedObj flds) k = Some u
                  \<longrightarrow> map_of kvs' k = Some u)"
proof -
  from syncFields_object[OF assms, of flds] obtain root' where
    r: "syncFields currentJson path flds = Inr (JSON_stringify2 root')"
    and w: "walk (Some root') (segments path) = Inr (Some (JObj (merged_object kvs flds)))"
    by blast
  have nd: "\<forall>k v. map_of kvs k = Some v \<and> is_container v
                  \<longrightarrow> k \<notin> set (keysToDelete (JObj kvs) flds)"
    by (auto simp: keysToDelete_obj)
  have keep: "\<forall>k v. map_of kvs k = Some v \<and> is_container v
                      \<and> \<not> list_ex (\<lambda>f. f_key f = Some k) flds
                  \<longrightarrow> map_of (merged_object kvs flds) k = Some v"
  proof (intro allI impI)
    fix k v
    assume a: "map_of kvs k = Some v \<and> is_container v
                 \<and> \<not> list_ex (\<lambda>f. f_key f = Some k) flds"
    then have "k \<notin> fst ` set (updatedObj flds)" using updatedObj_keys(2)[of k flds] by blast
    then have n: "map_of (updatedObj flds) k = None" by (simp add: map_of_eq_None_iff)
    from a nd have "k \<notin> set (keysToDelete (JObj kvs) flds)" by blast
    with n a show "map_of (merged_object kvs flds) k = Some v"
      by (simp add: map_of_merged_object)
  qed
  have over: "\<forall>k v u. map_of kvs k = Some v \<and> is_container v
                      \<and> map_of (updatedObj flds) k = Some u
                  \<longrightarrow> map_of (merged_object kvs flds) k = Some u"
    by (simp add: map_of_merged_object has_own_map_of)
  from r w nd keep over show ?thesis by blast
qed


theorem syncFields_keeps_nested_witness:
  \<open>(\<exists>root' kvs'. syncFields ''{"a":{"b":1,"c":"keep","d":{"e":1}}}'' (Some [Key ''a''])
                       [\<lparr>f_key = Some ''b'', f_value = ''99'', f_type = ''number''\<rparr>]
                     = Inr (JSON_stringify2 root')
         \<and> walk (Some root') [Key ''a''] = Inr (Some (JObj kvs'))
         \<and> map_of kvs' ''d'' = Some (JObj [(''e'', JNum (Dec 1 0))]))
   \<and> (\<exists>root' kvs'. syncFields ''{"a":{"b":1,"c":"keep","d":{"e":1}}}'' (Some [Key ''a''])
                       [\<lparr>f_key = Some ''d'', f_value = ''x'', f_type = ''string''\<rparr>]
                     = Inr (JSON_stringify2 root')
         \<and> walk (Some root') [Key ''a''] = Inr (Some (JObj kvs'))
         \<and> ''d'' \<notin> set (keysToDelete
               (JObj [(''b'', JNum (Dec 1 0)), (''c'', JStr ''keep''), (''d'', JObj [(''e'', JNum (Dec 1 0))])])
               [\<lparr>f_key = Some ''d'', f_value = ''x'', f_type = ''string''\<rparr>])
         \<and> map_of kvs' ''d'' = Some (JStr ''x''))\<close>
proof -
  let ?T = "[(''b'', JNum (Dec 1 0)), (''c'', JStr ''keep''), (''d'', JObj [(''e'', JNum (Dec 1 0))])]"
  let ?R = "JObj [(''a'', JObj ?T)]"
  let ?F = "[\<lparr>f_key = Some ''b'', f_value = ''99'', f_type = ''number''\<rparr>]"
  let ?G = "[\<lparr>f_key = Some ''d'', f_value = ''x'', f_type = ''string''\<rparr>]"
  have parse: \<open>JSON_parse ''{"a":{"b":1,"c":"keep","d":{"e":1}}}'' = Inr ?R\<close> by code_simp
  have w: "walk (Some ?R) (segments (Some [Key ''a''])) = Inr (Some (JObj ?T))" by code_simp
  have d: "map_of ?T ''d'' = Some (JObj [(''e'', JNum (Dec 1 0))])"
    "is_container (JObj [(''e'', JNum (Dec 1 0))])"
    "\<not> list_ex (\<lambda>f. f_key f = Some ''d'') ?F" by simp_all
  have g: "map_of (updatedObj ?G) ''d'' = Some (JStr ''x'')" by code_simp
  from syncFields_keeps_nested [OF parse w, of ?F] obtain root' kvs' where
    r: \<open>syncFields ''{"a":{"b":1,"c":"keep","d":{"e":1}}}'' (Some [Key ''a'']) ?F
          = Inr (JSON_stringify2 root')\<close>
    and w': "walk (Some root') (segments (Some [Key ''a''])) = Inr (Some (JObj kvs'))"
    and keep: "\<forall>k v. map_of ?T k = Some v \<and> is_container v
                      \<and> \<not> list_ex (\<lambda>f. f_key f = Some k) ?F
                  \<longrightarrow> map_of kvs' k = Some v"
    by blast
  from keep d have kd: "map_of kvs' ''d'' = Some (JObj [(''e'', JNum (Dec 1 0))])" by blast
  from w' have w'': "walk (Some root') [Key ''a''] = Inr (Some (JObj kvs'))"
    by (simp add: segments_def)
  from syncFields_keeps_nested [OF parse w, of ?G] obtain root2 kvs2 where
    r2: \<open>syncFields ''{"a":{"b":1,"c":"keep","d":{"e":1}}}'' (Some [Key ''a'']) ?G
          = Inr (JSON_stringify2 root2)\<close>
    and w2: "walk (Some root2) (segments (Some [Key ''a''])) = Inr (Some (JObj kvs2))"
    and nd: "\<forall>k v. map_of ?T k = Some v \<and> is_container v
                  \<longrightarrow> k \<notin> set (keysToDelete (JObj ?T) ?G)"
    and over: "\<forall>k v u. map_of ?T k = Some v \<and> is_container v
                      \<and> map_of (updatedObj ?G) k = Some u
                  \<longrightarrow> map_of kvs2 k = Some u"
    by blast
  from nd d have n2: "''d'' \<notin> set (keysToDelete (JObj ?T) ?G)" by blast
  from over d g have o2: "map_of kvs2 ''d'' = Some (JStr ''x'')" by blast
  from w2 have w2': "walk (Some root2) [Key ''a''] = Inr (Some (JObj kvs2))"
    by (simp add: segments_def)
  from r w'' kd r2 w2' n2 o2 show ?thesis by blast
qed

text \<open>
  A field that names a nested key overwrites it: the nested object is lost.
\<close>

theorem nested_key_overwritten_counterexample:
  \<open>JSON_parse ''{"d":{"e":1}}'' = Inr (JObj [(''d'', JObj [(''e'', JNum (Dec 1 0))])])
   \<and> parsed_result (syncFields ''{"d":{"e":1}}'' (Some [])
        [\<lparr>f_key = Some ''d'', f_value = ''x'', f_type = ''string''\<rparr>])
     = Inr (JObj [(''d'', JStr ''x'')])\<close>
  by code_simp



text \<open>
  Claim C2, as amended. When the path resolves to \<^verbatim>\<open>null\<close>, a boolean, a number
  or a string, the save is the edit of that location with the object built from the
  fields: for the root the new document is that object, and elsewhere the path leads
  to that object and every walk that leaves the path reads what it read before.
\<close>

theorem syncFields_replaces_scalar:
  assumes "JSON_parse currentJson = Inr root"
    and "resolves root (segments path)"
    and "walk (Some root) (segments path) = Inr (Some t)"
    and "\<not> is_container t"
  shows "syncFields currentJson path flds = applyEdit currentJson path (JObj (updatedObj flds))
       \<and> (segments path = [] \<longrightarrow>
            syncFields currentJson path flds = Inr (JSON_stringify2 (JObj (updatedObj flds))))
       \<and> (segments path \<noteq> [] \<longrightarrow>
            (\<exists>root'. syncFields currentJson path flds = Inr (JSON_stringify2 root')
               \<and> walk (Some root') (segments path) = Inr (Some (JObj (updatedObj flds)))
               \<and> (\<forall>q. diverge (map prop_key (segments path)) (map prop_key q)
                      \<longrightarrow> walk (Some root') q = walk (Some root) q)))"
proof -
  have eq: "syncFields currentJson path flds = applyEdit currentJson path (JObj (updatedObj flds))"
    using assms(1,3,4) by (simp add: syncFields_def not_object_container)
  have e: "segments path = [] \<longrightarrow>
            syncFields currentJson path flds = Inr (JSON_stringify2 (JObj (updatedObj flds)))"
  proof
    assume "segments path = []"
    then have "path = None \<or> path = Some []" by (cases path) (simp_all add: segments_def)
    then show "syncFields currentJson path flds = Inr (JSON_stringify2 (JObj (updatedObj flds)))"
      using eq assms(1) by (auto simp: applyEdit_def)
  qed
  have n: "segments path \<noteq> [] \<longrightarrow>
            (\<exists>root'. syncFields currentJson path flds = Inr (JSON_stringify2 root')
               \<and> walk (Some root') (segments path) = Inr (Some (JObj (updatedObj flds)))
               \<and> (\<forall>q. diverge (map prop_key (segments path)) (map prop_key q)
                      \<longrightarrow> walk (Some root') q = walk (Some root) q))"
  proof
    assume ne: "segments path \<noteq> []"
    then have p: "path = Some (segments path)" by (cases path) (simp_all add: segments_def)
    from applyEdit_at_resolving[OF assms(1) ne assms(2), of "JObj (updatedObj flds)"]
    obtain root' where
      a1: "applyEdit currentJson (Some (segments path)) (JObj (updatedObj flds))
             = Inr (JSON_stringify2 root')"
      and a2: "walk (Some root') (segments path) = Inr (Some (JObj (updatedObj flds)))"
      and a3: "\<forall>q. diverge (map prop_key (segments path)) (map prop_key q)
                  \<longrightarrow> walk (Some root') q = walk (Some root) q"
      by blast
    from a1 eq p have "syncFields currentJson path flds = Inr (JSON_stringify2 root')" by simp
    with a2 a3
    show "\<exists>root'. syncFields currentJson path flds = Inr (JSON_stringify2 root')
               \<and> walk (Some root') (segments path) = Inr (Some (JObj (updatedObj flds)))
               \<and> (\<forall>q. diverge (map prop_key (segments path)) (map prop_key q)
                      \<longrightarrow> walk (Some root') q = walk (Some root) q)"
      by blast
  qed
  from eq e n show ?thesis by blast
qed

theorem syncFields_replaces_scalar_witness:
  \<open>JSON_parse ''{"a":5,"c":[1]}'' = Inr (JObj [(''a'', JNum (Dec 5 0)), (''c'', JArr [JNum (Dec 1 0)])])
   \<and> parsed_result (syncFields ''{"a":5,"c":[1]}'' (Some [Key ''a''])
        [\<lparr>f_key = Some ''b'', f_value = ''x'', f_type = ''string''\<rparr>])
     = Inr (JObj [(''a'', JObj [(''b'', JStr ''x'')]), (''c'', JArr [JNum (Dec 1 0)])])
   \<and> (\<exists>root'. syncFields ''{"a":5,"c":[1]}'' (Some [Key ''a''])
                  [\<lparr>f_key = Some ''b'', f_value = ''x'', f_type = ''string''\<rparr>]
                = Inr (JSON_stringify2 root')
         \<and> walk (Some root') [Key ''a''] = Inr (Some (JObj [(''b'', JStr ''x'')]))
         \<and> walk (Some root') [Key ''c''] = Inr (Some (JArr [JNum (Dec 1 0)])))
   \<and> syncFields ''null'' None [\<lparr>f_key = Some ''b'', f_value = ''x'', f_type = ''string''\<rparr>]
     = Inr (JSON_stringify2 (JObj [(''b'', JStr ''x'')]))\<close>
proof -
  let ?R = "JObj [(''a'', JNum (Dec 5 0)), (''c'', JArr [JNum (Dec 1 0)])]"
  let ?F = "[\<lparr>f_key = Some ''b'', f_value = ''x'', f_type = ''string''\<rparr>]"
  have parse: \<open>JSON_parse ''{"a":5,"c":[1]}'' = Inr ?R\<close> by code_simp
  have res: "resolves ?R (segments (Some [Key ''a'']))" by code_simp
  have w: "walk (Some ?R) (segments (Some [Key ''a''])) = Inr (Some (JNum (Dec 5 0)))" by code_simp
  have sc: "\<not> is_container (JNum (Dec 5 0))" by simp
  have u: "updatedObj ?F = [(''b'', JStr ''x'')]" by code_simp
  have dv: "diverge (map prop_key (segments (Some [Key ''a'']))) (map prop_key [Key ''c''])"
    by code_simp
  have old: "walk (Some ?R) [Key ''c''] = Inr (Some (JArr [JNum (Dec 1 0)]))" by code_simp
  have ev: \<open>parsed_result (syncFields ''{"a":5,"c":[1]}'' (Some [Key ''a'']) ?F)
     = Inr (JObj [(''a'', JObj [(''b'', JStr ''x'')]), (''c'', JArr [JNum (Dec 1 0)])])\<close> by code_simp
  have sg: "segments (Some [Key ''a'']) = [Key ''a'']" by (simp add: segments_def)
  have ne: "segments (Some [Key ''a'']) \<noteq> []" by (simp add: sg)
  from syncFields_replaces_scalar [OF parse res w sc, of ?F] ne
  have "\<exists>root'. syncFields ''{\"a\":5,\"c\":[1]}'' (Some [Key ''a'']) ?F = Inr (JSON_stringify2 root')
               \<and> walk (Some root') (segments (Some [Key ''a''])) = Inr (Some (JObj (updatedObj ?F)))
               \<and> (\<forall>q. diverge (map prop_key (segments (Some [Key ''a'']))) (map prop_key q)
                      \<longrightarrow> walk (Some root') q = walk (Some ?R) q)"
    by blast
  then obtain root' where
    r1: "syncFields ''{\"a\":5,\"c\":[1]}'' (Some [Key ''a'']) ?F = Inr (JSON_stringify2 root')"
    and r2': "walk (Some root') (segments (Some [Key ''a''])) = Inr (Some (JObj (updatedObj ?F)))"
    and r3: "\<forall>q. diverge (map prop_key (segments (Some [Key ''a'']))) (map prop_key q)
                \<longrightarrow> walk (Some root') q = walk (Some ?R) q"
    by blast
  from r2' have r2: "walk (Some root') [Key ''a''] = Inr (Some (JObj [(''b'', JStr ''x'')]))"
    by (simp only: sg u)
  from r3 dv old have r4: "walk (Some root') [Key ''c''] = Inr (Some (JArr [JNum (Dec 1 0)]))"
    by metis
  have parse0: "JSON_parse ''null'' = Inr JNull" by code_simp
  have res0: "resolves JNull (segments None)" by (simp add: segments_def)
  have w0: "walk (Some JNull) (segments None) = Inr (Some JNull)" by (simp add: segments_def)
  have n0: "\<not> is_container JNull" by simp
  have sg0: "segments None = []" by (simp add: segments_def)
  from syncFields_replaces_scalar [OF parse0 res0 w0 n0, of ?F] sg0
  have "syncFields ''null'' None ?F = Inr (JSON_stringify2 (JObj (updatedObj ?F)))"
    by blast
  then have r0: "syncFields ''null'' None ?F = Inr (JSON_stringify2 (JObj [(''b'', JStr ''x'')]))"
    by (simp only: u)
  from parse ev r1 r2 r4 r0 show ?thesis by blast
qed

text \<open>
  An array is an object for the test \<^verbatim>\<open>typeof target !== "object"\<close>: it is not
  replaced, and the save differs from the edit of the location. A character of a
  string is a scalar that the walk reaches, and no location: the edit throws.
\<close>

theorem array_target_merged_counterexample:
  \<open>JSON_parse ''{"a":[1,2]}'' = Inr (JObj [(''a'', JArr [JNum (Dec 1 0), JNum (Dec 2 0)])])
   \<and> parsed_result (syncFields ''{"a":[1,2]}'' (Some [Key ''a''])
        [\<lparr>f_key = Some ''b'', f_value = ''x'', f_type = ''string''\<rparr>])
     = Inr (JObj [(''a'', JArr [JNull, JNull])])
   \<and> parsed_result (applyEdit ''{"a":[1,2]}'' (Some [Key ''a''])
        (JObj (updatedObj [\<lparr>f_key = Some ''b'', f_value = ''x'', f_type = ''string''\<rparr>])))
     = Inr (JObj [(''a'', JObj [(''b'', JStr ''x'')])])
   \<and> JSON_parse ''{"a":"xyz"}'' = Inr (JObj [(''a'', JStr ''xyz'')])
   \<and> walk (Some (JObj [(''a'', JStr ''xyz'')])) [Key ''a'', Index 0] = Inr (Some (JStr ''x''))
   \<and> syncFields ''{"a":"xyz"}'' (Some [Key ''a'', Index 0])
        [\<lparr>f_key = Some ''b'', f_value = ''x'', f_type = ''string''\<rparr>]
     = Inl TypeError\<close>
  by code_simp


subsection \<open>The empty key\<close>

lemma falsy_absent_if_empty: "falsy_key (absent_if_empty k) = falsy_key k"
  by (auto simp: falsy_key_def absent_if_empty_def)

lemma row_step_absent:
  "row_step obj (r\<lparr>r_key := absent_if_empty (r_key r)\<rparr>) = row_step obj r"
  by (auto simp: row_step_def falsy_key_def absent_if_empty_def)

lemma foldl_rows_absent:
  "foldl row_step acc (map (\<lambda>r. r\<lparr>r_key := absent_if_empty (r_key r)\<rparr>) nodeRows)
   = foldl row_step acc nodeRows"
  by (induction nodeRows arbitrary: acc) (simp_all add: row_step_absent)

lemma rows_object_absent:
  "rows_object (map (\<lambda>r. r\<lparr>r_key := absent_if_empty (r_key r)\<rparr>) nodeRows) = rows_object nodeRows"
  unfolding rows_object_def by (rule foldl_rows_absent)

lemma normalize_absent:
  "normalizeNodeData (map (\<lambda>r. r\<lparr>r_key := absent_if_empty (r_key r)\<rparr>) nodeRows)
   = normalizeNodeData nodeRows"
proof (cases nodeRows)
  case Nil
  then show ?thesis by simp
next
  case (Cons r rs)
  then show ?thesis
    using rows_object_absent[of nodeRows]
    by (simp add: normalizeNodeData_def falsy_absent_if_empty)
qed

lemma field_step_absent:
  "field_step obj (f\<lparr>f_key := absent_if_empty (f_key f)\<rparr>) = field_step obj f"
  by (auto simp: field_step_def falsy_key_def absent_if_empty_def coerce_def)

lemma foldl_fields_absent:
  "foldl field_step acc (map (\<lambda>f. f\<lparr>f_key := absent_if_empty (f_key f)\<rparr>) flds)
   = foldl field_step acc flds"
  by (induction flds arbitrary: acc) (simp_all add: field_step_absent)

lemma updatedObj_absent:
  "updatedObj (map (\<lambda>f. f\<lparr>f_key := absent_if_empty (f_key f)\<rparr>) flds) = updatedObj flds"
  unfolding updatedObj_def by (simp add: foldl_fields_absent)

lemma foldl_filter_skip:
  "(\<And>a x. x \<in> set xs \<Longrightarrow> \<not> P x \<Longrightarrow> f a x = a) \<Longrightarrow> foldl f a (filter P xs) = foldl f a xs"
  by (induction xs arbitrary: a) auto

lemma rows_object_filter:
  "rows_object nodeRows = rows_object (filter (\<lambda>r. r_key r \<noteq> Some []) nodeRows)"
  unfolding rows_object_def
  by (rule foldl_filter_skip[symmetric]) (simp add: row_step_def falsy_key_def)

lemma updatedObj_filter:
  "updatedObj flds = updatedObj (filter (\<lambda>f. f_key f \<noteq> Some []) flds)"
proof -
  have "foldl field_step new_object (filter (\<lambda>f. f_key f \<noteq> Some []) flds)
          = foldl field_step new_object flds"
    by (rule foldl_filter_skip) (simp add: field_step_def falsy_key_def)
  then show ?thesis by (simp add: updatedObj_def)
qed

lemma keys_row_step:
  "[] \<notin> fst ` set (po_own obj) \<Longrightarrow> [] \<notin> fst ` set (po_own (row_step obj r))"
  using keys_plain_assign[of rowval_kind "the (r_key r)" "r_value r" obj]
  by (auto simp: row_step_def falsy_key_def)

lemma keys_foldl_row_step:
  "[] \<notin> fst ` set (po_own acc) \<Longrightarrow> [] \<notin> fst ` set (po_own (foldl row_step acc nodeRows))"
  by (induction nodeRows arbitrary: acc) (simp_all add: keys_row_step)

lemma rows_object_no_empty_key: "[] \<notin> fst ` set (po_own (rows_object nodeRows))"
  unfolding rows_object_def by (rule keys_foldl_row_step) (simp add: new_object_def)

lemma updatedObj_no_empty_key: "[] \<notin> fst ` set (updatedObj flds)"
  using updatedObj_keys(2)[of "[]" flds] by blast

text \<open>
  Claim C8, as amended. A single row whose key is the empty string is rendered as a
  bare scalar. Rows and fields whose key is the empty string are left out of the
  objects built from them: the object is the one built without them, it is the one
  built with their keys absent, and it never has the empty key. In the save of an
  object target the field still counts as naming the key: a primitive key \<^verbatim>\<open>""\<close>
  of the target keeps its value when a field has the empty key, and is deleted when
  none has.
\<close>

theorem empty_key_skipped:
  "normalizeNodeData [\<lparr>r_key = Some [], r_value = v, r_type = t\<rparr>]
     = Inr (case v of RJson j \<Rightarrow> JSON_stringify j | RBigInt n \<Rightarrow> BigInt_toString n)
   \<and> rows_object nodeRows = rows_object (filter (\<lambda>r. r_key r \<noteq> Some []) nodeRows)
   \<and> rows_object nodeRows = rows_object (map (\<lambda>r. r\<lparr>r_key := absent_if_empty (r_key r)\<rparr>) nodeRows)
   \<and> [] \<notin> fst ` set (po_own (rows_object nodeRows))
   \<and> normalizeNodeData (map (\<lambda>r. r\<lparr>r_key := absent_if_empty (r_key r)\<rparr>) nodeRows)
       = normalizeNodeData nodeRows
   \<and> updatedObj flds = updatedObj (filter (\<lambda>f. f_key f \<noteq> Some []) flds)
   \<and> updatedObj flds = updatedObj (map (\<lambda>f. f\<lparr>f_key := absent_if_empty (f_key f)\<rparr>) flds)
   \<and> [] \<notin> fst ` set (updatedObj flds)
   \<and> (\<forall>currentJson root path kvs u.
         JSON_parse currentJson = Inr root
         \<and> walk (Some root) (segments path) = Inr (Some (JObj kvs))
         \<and> map_of kvs [] = Some u \<and> \<not> is_container u
         \<longrightarrow> (\<exists>root' kvs'. syncFields currentJson path flds = Inr (JSON_stringify2 root')
                 \<and> walk (Some root') (segments path) = Inr (Some (JObj kvs'))
                 \<and> map_of kvs' []
                     = (if list_ex (\<lambda>f. f_key f = Some []) flds then Some u else None)))"
proof -
  have single: "normalizeNodeData [\<lparr>r_key = Some [], r_value = v, r_type = t\<rparr>]
     = Inr (case v of RJson j \<Rightarrow> JSON_stringify j | RBigInt n \<Rightarrow> BigInt_toString n)"
    by (cases v)
       (simp_all add: normalizeNodeData_def falsy_key_def try_stringify_def template_text_def)
  have save: "\<forall>currentJson root path kvs u.
         JSON_parse currentJson = Inr root
         \<and> walk (Some root) (segments path) = Inr (Some (JObj kvs))
         \<and> map_of kvs [] = Some u \<and> \<not> is_container u
         \<longrightarrow> (\<exists>root' kvs'. syncFields currentJson path flds = Inr (JSON_stringify2 root')
                 \<and> walk (Some root') (segments path) = Inr (Some (JObj kvs'))
                 \<and> map_of kvs' []
                     = (if list_ex (\<lambda>f. f_key f = Some []) flds then Some u else None))"
  proof (intro allI impI)
    fix currentJson root path kvs u
    assume a: "JSON_parse currentJson = Inr root
         \<and> walk (Some root) (segments path) = Inr (Some (JObj kvs))
         \<and> map_of kvs [] = Some u \<and> \<not> is_container u"
    then have p: "JSON_parse currentJson = Inr root"
      and w: "walk (Some root) (segments path) = Inr (Some (JObj kvs))" by simp_all
    from syncFields_object[OF p w, of flds] obtain root' where
      r: "syncFields currentJson path flds = Inr (JSON_stringify2 root')"
      and w': "walk (Some root') (segments path) = Inr (Some (JObj (merged_object kvs flds)))"
      by blast
    have n: "map_of (updatedObj flds) [] = None"
      using updatedObj_no_empty_key[of flds] by (simp add: map_of_eq_None_iff)
    have "map_of (merged_object kvs flds) []
            = (if list_ex (\<lambda>f. f_key f = Some []) flds then Some u else None)"
      using a n by (simp add: map_of_merged_object keysToDelete_obj)
    with r w'
    show "\<exists>root' kvs'. syncFields currentJson path flds = Inr (JSON_stringify2 root')
                 \<and> walk (Some root') (segments path) = Inr (Some (JObj kvs'))
                 \<and> map_of kvs' []
                     = (if list_ex (\<lambda>f. f_key f = Some []) flds then Some u else None)"
      by blast
  qed
  from single rows_object_filter[of nodeRows] rows_object_absent[of nodeRows]
    rows_object_no_empty_key[of nodeRows] normalize_absent[of nodeRows]
    updatedObj_filter[of flds] updatedObj_absent[of flds] updatedObj_no_empty_key[of flds] save
  show ?thesis by simp
qed

theorem empty_key_skipped_witness:
  \<open>normalizeNodeData [\<lparr>r_key = Some [], r_value = RJson (JNum (Dec 42 0)), r_type = ''number''\<rparr>] = Inr ''42''
   \<and> rows_object [\<lparr>r_key = Some [], r_value = RJson (JNum (Dec 42 0)), r_type = ''number''\<rparr>,
                  \<lparr>r_key = Some ''a'', r_value = RJson (JStr ''x''), r_type = ''string''\<rparr>]
       = \<lparr>po_own = [(''a'', RJson (JStr ''x''))], po_proto = ObjectPrototype\<rparr>
   \<and> updatedObj [\<lparr>f_key = Some [], f_value = ''x'', f_type = ''string''\<rparr>] = []
   \<and> JSON_parse ''{"":1}'' = Inr (JObj [([], JNum (Dec 1 0))])
   \<and> (\<exists>root' kvs'. syncFields ''{"":1}'' None [\<lparr>f_key = Some [], f_value = ''x'', f_type = ''string''\<rparr>]
                       = Inr (JSON_stringify2 root')
         \<and> walk (Some root') [] = Inr (Some (JObj kvs'))
         \<and> map_of kvs' [] = Some (JNum (Dec 1 0)))
   \<and> (\<exists>root' kvs'. syncFields ''{"":1}'' None [\<lparr>f_key = None, f_value = ''x'', f_type = ''string''\<rparr>]
                       = Inr (JSON_stringify2 root')
         \<and> walk (Some root') [] = Inr (Some (JObj kvs'))
         \<and> map_of kvs' [] = None)\<close>
proof -
  let ?r0 = "\<lparr>r_key = Some [], r_value = RJson (JNum (Dec 42 0)), r_type = ''number''\<rparr>"
  let ?ra = "\<lparr>r_key = Some ''a'', r_value = RJson (JStr ''x''), r_type = ''string''\<rparr>"
  let ?f0 = "\<lparr>f_key = Some [], f_value = ''x'', f_type = ''string''\<rparr>"
  let ?fn = "\<lparr>f_key = None, f_value = ''x'', f_type = ''string''\<rparr>"
  let ?K = "[([], JNum (Dec 1 0))]"
  have s: "JSON_stringify (JNum (Dec 42 0)) = ''42''" by code_simp
  have ro: "rows_object [?ra] = \<lparr>po_own = [(''a'', RJson (JStr ''x''))], po_proto = ObjectPrototype\<rparr>"
    by code_simp
  have uo: "updatedObj [] = []" by (simp add: updatedObj_def new_object_def)
  have parse: \<open>JSON_parse ''{"":1}'' = Inr (JObj ?K)\<close> by code_simp
  have w: "walk (Some (JObj ?K)) (segments None) = Inr (Some (JObj ?K))" by (simp add: segments_def)
  have hyp: \<open>JSON_parse ''{"":1}'' = Inr (JObj ?K)
         \<and> walk (Some (JObj ?K)) (segments None) = Inr (Some (JObj ?K))
         \<and> map_of ?K [] = Some (JNum (Dec 1 0)) \<and> \<not> is_container (JNum (Dec 1 0))\<close>
    using parse w by simp
  note t0 = empty_key_skipped [of "RJson (JNum (Dec 42 0))" "''number''" "[?r0, ?ra]" "[?f0]"]
  note tn = empty_key_skipped [of "RJson (JNum (Dec 42 0))" "''number''" "[?r0, ?ra]" "[?fn]"]
  from t0 s have a: "normalizeNodeData [?r0] = Inr ''42''" by simp
  from t0 ro have b: "rows_object [?r0, ?ra]
       = \<lparr>po_own = [(''a'', RJson (JStr ''x''))], po_proto = ObjectPrototype\<rparr>" by simp
  from t0 uo have c: "updatedObj [?f0] = []" by simp
  from t0 hyp have d: \<open>\<exists>root' kvs'. syncFields ''{"":1}'' None [?f0] = Inr (JSON_stringify2 root')
         \<and> walk (Some root') (segments None) = Inr (Some (JObj kvs'))
         \<and> map_of kvs' [] = (if list_ex (\<lambda>f. f_key f = Some []) [?f0]
                               then Some (JNum (Dec 1 0)) else None)\<close>
    by blast
  from tn hyp have e: \<open>\<exists>root' kvs'. syncFields ''{"":1}'' None [?fn] = Inr (JSON_stringify2 root')
         \<and> walk (Some root') (segments None) = Inr (Some (JObj kvs'))
         \<and> map_of kvs' [] = (if list_ex (\<lambda>f. f_key f = Some []) [?fn]
                               then Some (JNum (Dec 1 0)) else None)\<close>
    by blast
  from d have d': \<open>\<exists>root' kvs'. syncFields ''{"":1}'' None [?f0] = Inr (JSON_stringify2 root')
         \<and> walk (Some root') [] = Inr (Some (JObj kvs'))
         \<and> map_of kvs' [] = Some (JNum (Dec 1 0))\<close>
    by (simp add: segments_def)
  from e have e': \<open>\<exists>root' kvs'. syncFields ''{"":1}'' None [?fn] = Inr (JSON_stringify2 root')
         \<and> walk (Some root') [] = Inr (Some (JObj kvs'))
         \<and> map_of kvs' [] = None\<close>
    by (simp add: segments_def)
  from a b c parse d' e' show ?thesis by blast
qed

text \<open>
  The save tells the empty key from the absent one, and a field with the empty key
  from no field: with it the key \<^verbatim>\<open>""\<close> of the target survives, without it the
  key is deleted.
\<close>

theorem empty_key_field_counterexample:
  \<open>parsed_result (syncFields ''{"":1}'' None [\<lparr>f_key = Some [], f_value = ''x'', f_type = ''string''\<rparr>])
     = Inr (JObj [([], JNum (Dec 1 0))])
   \<and> parsed_result (syncFields ''{"":1}'' None [\<lparr>f_key = None, f_value = ''x'', f_type = ''string''\<rparr>])
     = Inr (JObj [])
   \<and> parsed_result (syncFields ''{"":1}'' None []) = Inr (JObj [])\<close>
  by code_simp

end
